theory Spec2Isabelle
  imports Complex_Main
begin

section \<open>LeCleac'h horn profile solver (\<^verbatim>\<open>src/lib/jmlc.ts\<close>)\<close>

text \<open>
  The TypeScript class \<^verbatim>\<open>JmlcHornCalculator\<close> works on JavaScript numbers. The
  embedding reads every number as a real and every operation as the exact one
  (\<^verbatim>\<open>Math.sin\<close> is \<open>sin\<close>, \<^verbatim>\<open>Math.pow\<close> with a counter as exponent is \<open>^\<close>), so
  rounding, \<^verbatim>\<open>NaN\<close> and \<^verbatim>\<open>Infinity\<close> are outside the model, with two exceptions. The
  control flow of the solver depends on a division whose divisor is zero, which is
  written out as the code behaves there (see \<open>areaBelow\<close>). The digits of the coordinate
  export depend on the rounding of a division, which is modelled there (see
  \<open>roundToDouble\<close>).
\<close>

subsection \<open>Data model\<close>

record JmlcParams =
  fc :: real
  T :: real
  d0 :: real
  roundOver :: real

text \<open>
  The optional field \<^verbatim>\<open>z\<close> of \<^verbatim>\<open>Point\<close> is never set by the calculator. The field
  \<^verbatim>\<open>length\<close> is \<open>length_pt\<close> here, \<open>length\<close> being the length of a list.
\<close>

record Point =
  index :: nat
  x :: real
  y :: real
  length_pt :: real
  radius :: real
  angle :: real
  deltaAngle :: real

definition C_SOUND :: real where
  "C_SOUND = 343200"

subsection \<open>Area law\<close>

text \<open>
  The expansion coefficient. The quotient is the exact one; in double arithmetic it is
  also 0 when it underflows, for cutoffs of magnitude below about \<open>7e-320\<close>. The guard of
  \<^verbatim>\<open>generateProfile\<close> tests the value \<open>getM\<close> returns, and the statements about that guard
  are made on \<open>getM p\<close>.
\<close>

definition getM :: "JmlcParams \<Rightarrow> real" where
  "getM p = (4 * pi * fc p) / C_SOUND"

definition getTargetArea :: "JmlcParams \<Rightarrow> real \<Rightarrow> real" where
  "getTargetArea p len =
     (let m = getM p;
          r0 = d0 p / 2;
          s0 = pi * r0 * r0;
          term = (m * len) / 2;
          expansionFactor = cosh term + T p * sinh term
      in s0 * expansionFactor * expansionFactor)"

subsection \<open>The bisection of the physical solver\<close>

text \<open>
  The test \<^verbatim>\<open>S_geometry < S_target\<close> of the inner loop. Where \<open>1 + cos theta\<close> is zero
  (at \<open>theta = pi\<close>, the first midpoint of every solve) JavaScript's quotient is
  \<^verbatim>\<open>Infinity\<close> or \<^verbatim>\<open>NaN\<close> and the comparison is false; HOL's \<open>a / 0 = 0\<close> would say
  otherwise, so the case is written out.
\<close>

definition areaBelow :: "real \<Rightarrow> real \<Rightarrow> real \<Rightarrow> real \<Rightarrow> bool" where
  "areaBelow y_prev stepSize S_target theta =
     (let y_candidate = y_prev + stepSize * sin theta
      in if 1 + cos theta = 0 then False
         else (2 * pi * y_candidate * y_candidate) / (1 + cos theta) < S_target)"

text \<open>
  \<open>bisect y_prev stepSize S_target n (minTheta, maxTheta, theta)\<close> runs \<open>n\<close> iterations
  of the inner \<^verbatim>\<open>for\<close> loop on the three variables it assigns.
\<close>

fun bisect :: "real \<Rightarrow> real \<Rightarrow> real \<Rightarrow> nat \<Rightarrow> real \<times> real \<times> real \<Rightarrow> real \<times> real \<times> real" where
  "bisect y_prev stepSize S_target 0 b = b"
| "bisect y_prev stepSize S_target (Suc n) (minTheta, maxTheta, theta) =
     (let theta' = (minTheta + maxTheta) / 2
      in if areaBelow y_prev stepSize S_target theta'
         then bisect y_prev stepSize S_target n (theta', maxTheta, theta')
         else bisect y_prev stepSize S_target n (minTheta, theta', theta'))"

definition solveBisection :: "real \<Rightarrow> real \<Rightarrow> real \<Rightarrow> real \<times> real \<times> real" where
  "solveBisection y_prev stepSize S_target = bisect y_prev stepSize S_target 50 (0, 2 * pi, 0)"

subsection \<open>The step loop\<close>

text \<open>The local variables of \<^verbatim>\<open>generateProfile\<close> that live across iterations.\<close>

record loop_state =
  l_st :: real
  x_st :: real
  y_st :: real
  previousAngle :: real
  previousDelta :: real
  isSpiraling :: bool
  baseDeltaTheta :: real
  spiralStepCount :: nat
  points :: "Point list"

datatype outcome = Break loop_state | Continue loop_state

definition MAX_STEPS :: nat where
  "MAX_STEPS = 20000"

definition SPIRAL_DETECTION_THRESHOLD_ANGLE :: real where
  "SPIRAL_DETECTION_THRESHOLD_ANGLE = 90"

definition EPSILON :: real where
  "EPSILON = 0.005"

definition growthRate :: real where
  "growthRate = 1.005"

text \<open>Step 2 of the loop body: the wall angle, and the spiral variables it updates.\<close>

definition solveTheta :: "JmlcParams \<Rightarrow> real \<Rightarrow> real \<Rightarrow> loop_state \<Rightarrow> real \<times> loop_state" where
  "solveTheta p stepSize S_target s =
     (if isSpiraling s then
        (let s' = s\<lparr>spiralStepCount := spiralStepCount s + 1\<rparr>;
             currentDelta = baseDeltaTheta s' * growthRate ^ spiralStepCount s'
         in (previousAngle s' + currentDelta, s'))
      else
        (let theta = snd (snd (solveBisection (y_st s) stepSize S_target));
             currentDeg = theta * (180 / pi);
             currentDelta = theta - previousAngle s;
             isDecelerating = (currentDelta < previousDelta s
                                \<and> currentDeg > SPIRAL_DETECTION_THRESHOLD_ANGLE)
         in if isDecelerating \<and> roundOver p > 100
            then (previousAngle s + previousDelta s,
                  s\<lparr>isSpiraling := True, baseDeltaTheta := previousDelta s\<rparr>)
            else (theta, s)))"

definition loopBody :: "JmlcParams \<Rightarrow> real \<Rightarrow> nat \<Rightarrow> loop_state \<Rightarrow> outcome" where
  "loopBody p stepSize i s =
     (let l_next = l_st s + stepSize;
          S_target = getTargetArea p l_next;
          (theta, s1) = solveTheta p stepSize S_target s;
          thetaDeg = theta * (180 / pi);
          deltaDeg = (theta - previousAngle s1) * (180 / pi);
          s2 = (if \<not> isSpiraling s1 then s1\<lparr>previousDelta := theta - previousAngle s1\<rparr> else s1)
      in if thetaDeg \<ge> roundOver p - EPSILON then Break s2
         else if isSpiraling s2 \<and> y_st s2 + stepSize * sin theta \<le> 0 then Break s2
         else
           (let dx = stepSize * cos theta;
                dy = stepSize * sin theta;
                x' = x_st s2 + dx;
                y' = y_st s2 + dy
            in Continue (s2\<lparr>l_st := l_next, x_st := x', y_st := y', previousAngle := theta,
                 points := points s2 @
                   [\<lparr>index = i + 1, x = x', y = y', length_pt = l_next,
                     radius = sqrt (S_target / pi), angle = thetaDeg,
                     deltaAngle = deltaDeg\<rparr>]\<rparr>)))"

function stepLoop :: "JmlcParams \<Rightarrow> real \<Rightarrow> nat \<Rightarrow> loop_state \<Rightarrow> loop_state" where
  "stepLoop p stepSize i s =
     (if i < MAX_STEPS
      then (case loopBody p stepSize i s of
              Break s' \<Rightarrow> s'
            | Continue s' \<Rightarrow> stepLoop p stepSize (i + 1) s')
      else s)"
  by pat_completeness auto
termination
  by (relation "measure (\<lambda>(p, stepSize, i, s). MAX_STEPS - i)") auto

definition seedPoint :: "JmlcParams \<Rightarrow> Point" where
  "seedPoint p = \<lparr>index = 0, x = 0, y = d0 p / 2, length_pt = 0, radius = d0 p / 2,
                  angle = 0, deltaAngle = 0\<rparr>"

definition initState :: "JmlcParams \<Rightarrow> loop_state" where
  "initState p = \<lparr>l_st = 0, x_st = 0, y_st = d0 p / 2, previousAngle = 0, previousDelta = 0,
                  isSpiraling = False, baseDeltaTheta = 0, spiralStepCount = 0,
                  points = [seedPoint p]\<rparr>"

text \<open>
  The method of the class, with the parameters of the instance as first argument. The
  default \<open>1.0\<close> of \<^verbatim>\<open>stepSize\<close> belongs to the call and is not modelled.
\<close>

definition generateProfile :: "JmlcParams \<Rightarrow> real \<Rightarrow> Point list" where
  "generateProfile p stepSize =
     (if getM p = 0 \<or> d0 p \<le> 0 then []
      else points (stepLoop p stepSize 0 (initState p)))"

text \<open>
  The states at the head of the loop: \<open>reach p stepSize i s\<close> holds when the run on
  \<open>p\<close> and \<open>stepSize\<close> enters iteration \<open>i\<close> in state \<open>s\<close>.
\<close>

inductive reach :: "JmlcParams \<Rightarrow> real \<Rightarrow> nat \<Rightarrow> loop_state \<Rightarrow> bool"
  for p :: JmlcParams and stepSize :: real where
  reach_init: "reach p stepSize 0 (initState p)"
| reach_step: "reach p stepSize i s \<Longrightarrow> i < MAX_STEPS \<Longrightarrow> loopBody p stepSize i s = Continue s'
     \<Longrightarrow> reach p stepSize (i + 1) s'"

code_pred reach .

text \<open>The record pushed by an accepted iteration \<open>i\<close> that solved the angle \<open>th\<close> in state \<open>s\<close>.\<close>

definition emitted :: "JmlcParams \<Rightarrow> real \<Rightarrow> nat \<Rightarrow> loop_state \<Rightarrow> real \<Rightarrow> Point" where
  "emitted p stepSize i s th =
     \<lparr>index = i + 1, x = x_st s + stepSize * cos th, y = y_st s + stepSize * sin th,
      length_pt = l_st s + stepSize,
      radius = sqrt (getTargetArea p (l_st s + stepSize) / pi),
      angle = th * (180 / pi), deltaAngle = (th - previousAngle s) * (180 / pi)\<rparr>"

subsection \<open>Concrete inputs\<close>

text \<open>
  A run that enters the spiral regime at its second iteration: a coarse step on a wide
  throat, at the top of the cutoff range, asked for two full turns.
\<close>

definition deepRollback :: JmlcParams where
  "deepRollback = \<lparr>fc = 2000, T = 1, d0 = 200, roundOver = 720\<rparr>"

text \<open>The defaults of the application.\<close>

definition nominal :: JmlcParams where
  "nominal = \<lparr>fc = 340, T = 1, d0 = 36, roundOver = 180\<rparr>"


section \<open>Coordinate export\<close>

text \<open>
  \<^verbatim>\<open>generateCSV\<close> prints \<^verbatim>\<open>(p.x / 10).toFixed(4)\<close>. Which digits appear depends on the
  quotient the division delivers, so here the rounding of the division is modelled: an
  IEEE 754 division returns the double nearest to the exact quotient, ties to the even
  significand. \<open>roundToDouble\<close> is that rounding on reals: doubles of magnitude in
  \<open>[2^e, 2^(e+1))\<close> are the multiples of \<open>2^(e-52)\<close>, and below \<open>2^(-1022)\<close> the multiples
  of \<open>2^(-1074)\<close>. Overflow to \<^verbatim>\<open>Infinity\<close> is not modelled; a finite double divided by 10
  does not overflow. The coordinates of a point are doubles in the code; the definitions
  and theorems below are for every real.
\<close>

definition pow2 :: "int \<Rightarrow> real" where
  "pow2 k = (if 0 \<le> k then 2 ^ nat k else 1 / 2 ^ nat (- k))"

definition roundHalfEven :: "real \<Rightarrow> int" where
  "roundHalfEven q =
     (let f = \<lfloor>q\<rfloor>; r = q - of_int f
      in if r < 1 / 2 then f else if 1 / 2 < r then f + 1 else if even f then f else f + 1)"

definition roundToDouble :: "real \<Rightarrow> real" where
  "roundToDouble v =
     (if v = 0 then 0
      else (let e = max \<lfloor>log 2 \<bar>v\<bar>\<rfloor> (- 1022);
                u = pow2 (e - 52)
            in of_int (roundHalfEven (v / u)) * u))"

definition divDouble :: "real \<Rightarrow> real \<Rightarrow> real" where
  "divDouble a b = roundToDouble (a / b)"

text \<open>Decimal digits of a natural number, most significant first.\<close>

definition digitChar :: "nat \<Rightarrow> char" where
  "digitChar d = ''0123456789'' ! d"

fun digitsOf :: "nat \<Rightarrow> string" where
  "digitsOf n = (if n < 10 then [digitChar n] else digitsOf (n div 10) @ [digitChar (n mod 10)])"

declare digitsOf.simps [simp del]

text \<open>
  The number-to-string conversion of ECMAScript (\<^verbatim>\<open>Number::toString\<close>, radix 10), on the
  arguments \<^verbatim>\<open>toFixed\<close> hands to it: magnitudes of \<open>10^21\<close> and more. It takes integers
  \<open>n\<close>, \<open>k\<close>, \<open>s\<close> with \<open>k \<ge> 1\<close>, \<open>10^(k-1) \<le> s < 10^k\<close>, such that \<open>s * 10^(n-k)\<close> rounds to
  the given double and \<open>k\<close> is as small as possible; among several \<open>s\<close> the one nearest to
  the double, the even one on a tie. Seventeen digits always suffice. For a given \<open>k\<close>
  the candidates are found among the two integers around \<open>v / 10^(n-k)\<close>, for the three
  \<open>n\<close> around the number of digits of \<open>v\<close>. The digits of \<open>s\<close> are then printed, followed
  by \<open>n - k\<close> zeros when \<open>n \<le> 21\<close>, and otherwise in exponent notation: first digit,
  a point and the remaining digits if there are any, \<open>e+\<close> and \<open>n - 1\<close>.
\<close>

definition decimalCandidates :: "real \<Rightarrow> nat \<Rightarrow> (nat \<times> nat) list" where
  "decimalCandidates v k =
     (let n0 = length (digitsOf (nat \<lfloor>v\<rfloor>))
      in [(n, s). n \<leftarrow> [n0 - 1, n0, n0 + 1],
                  s \<leftarrow> [nat \<lfloor>v / 10 ^ (n - k)\<rfloor>, nat \<lfloor>v / 10 ^ (n - k)\<rfloor> + 1],
                  k \<le> n, 10 ^ (k - 1) \<le> s, s < 10 ^ k,
                  roundToDouble (of_nat s * 10 ^ (n - k)) = v])"

definition closer :: "real \<Rightarrow> nat \<Rightarrow> nat \<times> nat \<Rightarrow> nat \<times> nat \<Rightarrow> nat \<times> nat" where
  "closer v k c d =
     (let dc = \<bar>of_nat (snd c) * 10 ^ (fst c - k) - v\<bar>;
          dd = \<bar>of_nat (snd d) * 10 ^ (fst d - k) - v\<bar>
      in if dd < dc \<or> (dd = dc \<and> even (snd d)) then d else c)"

definition numberToString :: "real \<Rightarrow> string" where
  "numberToString v =
     (case find (\<lambda>k. decimalCandidates v k \<noteq> []) [1..<18] of
        None \<Rightarrow> []
      | Some k \<Rightarrow>
          (case decimalCandidates v k of
             [] \<Rightarrow> []
           | c # cs \<Rightarrow>
               (let (n, s) = foldl (closer v k) c cs;
                    ds = digitsOf s
                in if n \<le> 21 then ds @ replicate (n - k) (CHR ''0'')
                   else (if k = 1 then ds else take 1 ds @ ''.'' @ drop 1 ds)
                        @ ''e+'' @ digitsOf (n - 1))))"

text \<open>
  \<^verbatim>\<open>Number.prototype.toFixed\<close>, step by step as ECMAScript defines it on a finite value:
  the sign of a negative value is split off; a magnitude of \<open>10^21\<close> or more is handed to
  the number-to-string conversion; otherwise the integer \<open>n\<close> nearest to \<open>a * 10^f\<close> (the
  larger one on a tie) is printed in decimal, padded with zeros to at least \<open>f + 1\<close>
  digits, with a point before the last \<open>f\<close> digits.
\<close>

definition toFixed :: "nat \<Rightarrow> real \<Rightarrow> string" where
  "toFixed f v =
     (let s = (if v < 0 then ''-'' else '''');
          a = \<bar>v\<bar>
      in if a \<ge> 10 ^ 21 then s @ numberToString a
         else
           (let n = nat \<lfloor>a * 10 ^ f + 1 / 2\<rfloor>;
                m = (if n = 0 then ''0'' else digitsOf n)
            in if f \<noteq> 0
               then (let k = length m;
                         m' = (if k \<le> f then replicate (f + 1 - k) (CHR ''0'') @ m else m);
                         k' = (if k \<le> f then f + 1 else k)
                     in s @ take (k' - f) m' @ ''.'' @ drop (k' - f) m')
               else s @ m))"

text \<open>The \<^verbatim>\<open>forEach\<close> appends one row per point to the header line.\<close>

definition generateCSV :: "Point list \<Rightarrow> string" where
  "generateCSV ps =
     foldl (\<lambda>csv p. csv @ toFixed 4 (divDouble (x p) 10) @ '',''
                        @ toFixed 4 (divDouble (y p) 10) @ '',0.0000'' @ [CHR 0x0A])
       (''X (cm),Y (cm),Z (cm)'' @ [CHR 0x0A]) ps"

text \<open>The number a string of decimal digits denotes, to say what a formatted value is.\<close>

definition valueOf :: "string \<Rightarrow> nat" where
  "valueOf cs = foldl (\<lambda>a c. 10 * a + (of_char c - 48)) 0 cs"

section \<open>Properties of the loop body\<close>

lemma solveTheta_fields:
  "solveTheta p stepSize S s = (th, s1) \<Longrightarrow>
     l_st s1 = l_st s \<and> x_st s1 = x_st s \<and> y_st s1 = y_st s \<and> previousAngle s1 = previousAngle s
     \<and> previousDelta s1 = previousDelta s \<and> points s1 = points s"
  by (auto simp: solveTheta_def Let_def split: if_splits)

lemma loopBody_Continue:
  assumes "loopBody p stepSize i s = Continue s'"
  shows "\<exists>th s1. solveTheta p stepSize (getTargetArea p (l_st s + stepSize)) s = (th, s1)
            \<and> th * (180 / pi) < roundOver p - EPSILON
            \<and> (isSpiraling s1 \<longrightarrow> 0 < y_st s + stepSize * sin th)
            \<and> l_st s' = l_st s + stepSize
            \<and> x_st s' = x_st s + stepSize * cos th
            \<and> y_st s' = y_st s + stepSize * sin th
            \<and> previousAngle s' = th
            \<and> isSpiraling s' = isSpiraling s1
            \<and> baseDeltaTheta s' = baseDeltaTheta s1
            \<and> spiralStepCount s' = spiralStepCount s1
            \<and> previousDelta s' = (if isSpiraling s1 then previousDelta s else th - previousAngle s)
            \<and> points s' = points s @ [emitted p stepSize i s th]"
proof -
  obtain th s1 where st: "solveTheta p stepSize (getTargetArea p (l_st s + stepSize)) s = (th, s1)"
    by (cases "solveTheta p stepSize (getTargetArea p (l_st s + stepSize)) s")
  note f = solveTheta_fields[OF st]
  from assms st f show ?thesis
    by (auto simp: loopBody_def Let_def emitted_def split: if_splits)
qed

lemma loopBody_Break:
  assumes "loopBody p stepSize i s = Break s'"
  shows "points s' = points s"
proof -
  obtain th s1 where st: "solveTheta p stepSize (getTargetArea p (l_st s + stepSize)) s = (th, s1)"
    by (cases "solveTheta p stepSize (getTargetArea p (l_st s + stepSize)) s")
  note f = solveTheta_fields[OF st]
  from assms st f show ?thesis
    by (auto simp: loopBody_def Let_def split: if_splits)
qed

lemma stepLoop_final:
  "reach p stepSize i s \<Longrightarrow>
     \<exists>j t. reach p stepSize j t \<and> points (stepLoop p stepSize i s) = points t
        \<and> (j = MAX_STEPS \<or> (j < MAX_STEPS \<and> (\<exists>t'. loopBody p stepSize j t = Break t')))"
proof (induction p stepSize i s rule: stepLoop.induct)
  case (1 p stepSize i s)
  show ?case
  proof (cases "i < MAX_STEPS")
    case False
    have "i \<le> MAX_STEPS" using "1.prems"
      by (induction rule: reach.induct) auto
    with False have "i = MAX_STEPS" by simp
    with "1.prems" False show ?thesis by auto
  next
    case True
    show ?thesis
    proof (cases "loopBody p stepSize i s")
      case (Break s')
      with True "1.prems" loopBody_Break[OF Break] show ?thesis
        by (subst stepLoop.simps) auto
    next
      case (Continue s')
      have r: "reach p stepSize (i + 1) s'"
        using "1.prems" True Continue by (rule reach_step)
      from "1.IH"[OF True Continue r] True Continue show ?thesis
        by (subst stepLoop.simps) auto
    qed
  qed
qed

section \<open>Properties of the bisection\<close>

lemma bisect_inv:
  assumes "bisect y0 h S n (lo, hi, th) = (lo', hi', th')" and "lo < hi"
  shows "hi' - lo' = (hi - lo) / 2 ^ n \<and> lo \<le> lo' \<and> lo' < hi' \<and> hi' \<le> hi
         \<and> (0 < n \<longrightarrow> (th' = lo' \<or> th' = hi') \<and> lo < th' \<and> th' < hi)
         \<and> (lo' = lo \<or> areaBelow y0 h S lo')
         \<and> (hi' = hi \<or> \<not> areaBelow y0 h S hi')"
  using assms
proof (induction n arbitrary: lo hi th)
  case 0
  then show ?case by simp
next
  case (Suc n)
  define mid where "mid = (lo + hi) / 2"
  have m: "lo < mid" "mid < hi" and hw: "hi - mid = (hi - lo) / 2" "mid - lo = (hi - lo) / 2"
    using Suc.prems(2) by (simp_all add: mid_def field_simps)
  show ?case
  proof (cases "areaBelow y0 h S mid")
    case True
    with Suc.prems(1) have b: "bisect y0 h S n (mid, hi, mid) = (lo', hi', th')"
      by (simp add: Let_def mid_def)
    note ih = Suc.IH[OF b m(2)]
    from ih have w: "hi' - lo' = (hi - lo) / 2 ^ Suc n" by (simp add: hw)
    from ih m True have r: "lo \<le> lo' \<and> lo' < hi' \<and> hi' \<le> hi
         \<and> (lo' = lo \<or> areaBelow y0 h S lo') \<and> (hi' = hi \<or> \<not> areaBelow y0 h S hi')"
      by (metis less_eq_real_def order_less_le_trans)
    have t: "(th' = lo' \<or> th' = hi') \<and> lo < th' \<and> th' < hi"
    proof (cases "n = 0")
      case True
      with b m show ?thesis by simp
    next
      case False
      with ih m show ?thesis by force
    qed
    from w r t show ?thesis by blast
  next
    case False
    with Suc.prems(1) have b: "bisect y0 h S n (lo, mid, mid) = (lo', hi', th')"
      by (simp add: Let_def mid_def)
    note ih = Suc.IH[OF b m(1)]
    from ih have w: "hi' - lo' = (hi - lo) / 2 ^ Suc n" by (simp add: hw)
    from ih m False have r: "lo \<le> lo' \<and> lo' < hi' \<and> hi' \<le> hi
         \<and> (lo' = lo \<or> areaBelow y0 h S lo') \<and> (hi' = hi \<or> \<not> areaBelow y0 h S hi')"
      by (metis less_eq_real_def order_le_less_trans)
    have t: "(th' = lo' \<or> th' = hi') \<and> lo < th' \<and> th' < hi"
    proof (cases "n = 0")
      case True
      with b m show ?thesis by simp
    next
      case False
      with ih m show ?thesis by force
    qed
    from w r t show ?thesis by blast
  qed
qed

lemma areaBelow_pi [simp]: "\<not> areaBelow y0 h S pi"
  by (simp add: areaBelow_def)

lemma solveBisection_first:
  "solveBisection y0 h S = bisect y0 h S 49 (0, pi, pi)"
proof -
  have e: "(50::nat) = Suc 49" by simp
  show ?thesis
    unfolding solveBisection_def e bisect.simps Let_def by simp
qed

lemma solveBisection_inv:
  assumes "solveBisection y0 h S = (lo, hi, th)"
  shows "hi - lo = 2 * pi / 2 ^ 50 \<and> 0 \<le> lo \<and> lo < hi \<and> hi \<le> pi
         \<and> (th = lo \<or> th = hi) \<and> 0 < th \<and> th < pi
         \<and> (lo = 0 \<or> areaBelow y0 h S lo) \<and> \<not> areaBelow y0 h S hi"
proof -
  from assms have b: "bisect y0 h S 49 (0, pi, pi) = (lo, hi, th)"
    by (simp add: solveBisection_first)
  have "(0::real) < pi" by simp
  from bisect_inv[OF b this] show ?thesis
    by auto
qed

lemma bisect_never_below:
  assumes "\<And>t. lo < t \<Longrightarrow> t < hi \<Longrightarrow> \<not> areaBelow y0 h S t" and "lo < hi"
  shows "bisect y0 h S n (lo, hi, th) = (lo, lo + (hi - lo) / 2 ^ n, if n = 0 then th else lo + (hi - lo) / 2 ^ n)"
  using assms
proof (induction n arbitrary: hi th)
  case 0
  then show ?case by simp
next
  case (Suc n)
  let ?m = "(lo + hi) / 2"
  have m: "lo < ?m" "?m < hi" using Suc.prems(2) by simp_all
  have nb: "\<not> areaBelow y0 h S ?m" using Suc.prems(1) m by blast
  have ih: "bisect y0 h S n (lo, ?m, ?m) = (lo, lo + (?m - lo) / 2 ^ n, if n = 0 then ?m else lo + (?m - lo) / 2 ^ n)"
    using Suc.IH[of ?m ?m] Suc.prems(1) m by auto
  have e: "lo + (?m - lo) / 2 ^ n = lo + (hi - lo) / 2 ^ Suc n"
    by (simp add: field_simps)
  show ?case using nb ih e by (auto simp: Let_def)
qed

lemma bisect_below_half:
  assumes "areaBelow y0 h S (pi / 2)" and "solveBisection y0 h S = (lo, hi, th)"
  shows "pi / 2 < th \<and> th < pi"
proof -
  have e: "(49::nat) = Suc 48" by simp
  have "bisect y0 h S 49 (0, pi, pi) = bisect y0 h S 48 (pi / 2, pi, pi / 2)"
    unfolding e bisect.simps Let_def using assms(1) by simp
  with assms(2) have b: "bisect y0 h S 48 (pi / 2, pi, pi / 2) = (lo, hi, th)"
    by (simp add: solveBisection_first)
  have "pi / 2 < pi" by simp
  from bisect_inv[OF b this] show ?thesis by auto
qed

section \<open>Reachable states and the returned sequence\<close>

lemma reach_le: "reach p stepSize i s \<Longrightarrow> i \<le> MAX_STEPS"
  by (induction rule: reach.induct) auto

lemma reach_det: "reach p stepSize i s \<Longrightarrow> reach p stepSize i t \<Longrightarrow> s = t"
proof (induction arbitrary: t rule: reach.induct)
  case reach_init
  from reach_init show ?case by (cases rule: reach.cases) auto
next
  case (reach_step i s s')
  from reach_step.prems show ?case
  proof (cases rule: reach.cases)
    case reach_init
    then show ?thesis by simp
  next
    case (reach_step j u)
    then have "j = i" by simp
    with reach_step reach_step.IH[of u] have "u = s" by simp
    with reach_step reach_step.hyps(3) \<open>j = i\<close> show ?thesis by simp
  qed
qed

lemma reach_points:
  "reach p stepSize i s \<Longrightarrow>
     length (points s) = i + 1 \<and> points s ! 0 = seedPoint p
     \<and> index (last (points s)) = i
     \<and> x (last (points s)) = x_st s \<and> y (last (points s)) = y_st s
     \<and> length_pt (last (points s)) = l_st s
     \<and> angle (last (points s)) = previousAngle s * (180 / pi)"
proof (induction rule: reach.induct)
  case reach_init
  show ?case by (simp add: initState_def seedPoint_def)
next
  case (reach_step i s s')
  from loopBody_Continue[OF reach_step.hyps(3)] reach_step.IH show ?case
    by (auto simp: emitted_def nth_append)
qed

lemma reach_earlier:
  "reach p stepSize j t \<Longrightarrow> k < j \<Longrightarrow>
     \<exists>u u'. reach p stepSize k u \<and> k < MAX_STEPS \<and> loopBody p stepSize k u = Continue u'
          \<and> reach p stepSize (k + 1) u'"
proof (induction rule: reach.induct)
  case reach_init
  then show ?case by simp
next
  case (reach_step i s s')
  show ?case
  proof (cases "k = i")
    case True
    with reach_step.hyps show ?thesis using reach.reach_step by blast
  next
    case False
    with reach_step.prems have "k < i" by simp
    from reach_step.IH[OF this] show ?thesis .
  qed
qed

lemma reach_prefix:
  "reach p stepSize j t \<Longrightarrow> reach p stepSize k u \<Longrightarrow> k \<le> j \<Longrightarrow> take (k + 1) (points t) = points u"
proof (induction rule: reach.induct)
  case reach_init
  then have "k = 0" by simp
  with reach_init reach_det[OF reach.reach_init, of p stepSize u] show ?case
    by (auto simp: initState_def)
next
  case (reach_step i s s')
  note r' = reach.reach_step[OF reach_step.hyps]
  show ?case
  proof (cases "k = i + 1")
    case True
    with reach_step.prems r' have "u = s'" using reach_det by blast
    with True reach_points[OF r'] show ?thesis by simp
  next
    case False
    with reach_step.prems have "k \<le> i" by simp
    from reach_step.IH[OF reach_step.prems(1) this] loopBody_Continue[OF reach_step.hyps(3)]
      reach_points[OF reach_step.hyps(1)] \<open>k \<le> i\<close>
    show ?thesis by auto
  qed
qed

lemma generateProfile_final:
  assumes "getM p \<noteq> 0" and "0 < d0 p"
  shows "\<exists>j t. reach p stepSize j t \<and> generateProfile p stepSize = points t
           \<and> (j = MAX_STEPS \<or> (j < MAX_STEPS \<and> (\<exists>t'. loopBody p stepSize j t = Break t')))"
  using stepLoop_final[OF reach_init, of p stepSize] assms
  by (simp add: generateProfile_def)

lemma generateProfile_nth:
  assumes nd: "getM p \<noteq> 0" "0 < d0 p"
    and r: "reach p stepSize k u" and k: "k < length (generateProfile p stepSize)"
  shows "generateProfile p stepSize ! k = last (points u)"
proof -
  from generateProfile_final[OF nd] obtain j t where
    jt: "reach p stepSize j t" "generateProfile p stepSize = points t" by blast
  from reach_points[OF jt(1)] jt(2) k have "k \<le> j" by simp
  from reach_prefix[OF jt(1) r this] have "take (k + 1) (points t) = points u" .
  moreover from reach_points[OF r] have "length (points u) = k + 1" "points u \<noteq> []" by auto
  ultimately have "last (points u) = points t ! k"
    by (metis add_diff_cancel_right' last_conv_nth less_add_one nth_take)
  with jt(2) show ?thesis by simp
qed

lemma generateProfile_reach:
  assumes nd: "getM p \<noteq> 0" "0 < d0 p"
    and k: "k < length (generateProfile p stepSize)"
  shows "\<exists>u. reach p stepSize k u"
proof -
  from generateProfile_final[OF nd] obtain j t where
    jt: "reach p stepSize j t" "generateProfile p stepSize = points t" by blast
  from reach_points[OF jt(1)] jt(2) k have "k \<le> j" by simp
  show ?thesis
  proof (cases "k = j")
    case True
    with jt show ?thesis by blast
  next
    case False
    with \<open>k \<le> j\<close> have "k < j" by simp
    from reach_earlier[OF jt(1) this] show ?thesis by blast
  qed
qed

lemma generateProfile_covers:
  assumes nd: "getM p \<noteq> 0" "0 < d0 p" and r: "reach p stepSize k u"
  shows "k < length (generateProfile p stepSize)"
proof -
  from generateProfile_final[OF nd] obtain j t where
    jt: "reach p stepSize j t" "generateProfile p stepSize = points t" by blast
  have "k \<le> j"
  proof (rule ccontr)
    assume "\<not> k \<le> j"
    then have "j < k" by simp
    from reach_earlier[OF r this] obtain v v' where
      v: "reach p stepSize j v" "j < MAX_STEPS" "loopBody p stepSize j v = Continue v'" by blast
    from reach_det[OF v(1) jt(1)] have "v = t" .
    moreover from generateProfile_final[OF nd, of stepSize] obtain j2 t2 where
      j2: "reach p stepSize j2 t2" "generateProfile p stepSize = points t2"
        "j2 = MAX_STEPS \<or> (j2 < MAX_STEPS \<and> (\<exists>t'. loopBody p stepSize j2 t2 = Break t'))" by blast
    have "j2 = j" using reach_points[OF j2(1)] reach_points[OF jt(1)] j2(2) jt(2) by simp
    with j2(1) jt(1) have "t2 = t" using reach_det by blast
    with j2(3) \<open>j2 = j\<close> v \<open>v = t\<close> show False by auto
  qed
  with reach_points[OF jt(1)] jt(2) show ?thesis by simp
qed

section \<open>Solving the angle, accepting a step\<close>

lemma solveTheta_physical:
  assumes "\<not> isSpiraling s" and "solveBisection (y_st s) h S = (lo, hi, thb)"
  shows "solveTheta p h S s =
           (if thb - previousAngle s < previousDelta s \<and> 90 < thb * (180 / pi) \<and> 100 < roundOver p
            then (previousAngle s + previousDelta s,
                  s\<lparr>isSpiraling := True, baseDeltaTheta := previousDelta s\<rparr>)
            else (thb, s))"
  using assms by (simp add: solveTheta_def Let_def SPIRAL_DETECTION_THRESHOLD_ANGLE_def)

lemma solveTheta_spiral:
  assumes "isSpiraling s"
  shows "solveTheta p h S s =
           (previousAngle s + baseDeltaTheta s * growthRate ^ (spiralStepCount s + 1),
            s\<lparr>spiralStepCount := spiralStepCount s + 1\<rparr>)"
  using assms by (simp add: solveTheta_def Let_def)

lemma loopBody_Break_cond:
  assumes "loopBody p h i s = Break s'"
  shows "\<exists>th s1. solveTheta p h (getTargetArea p (l_st s + h)) s = (th, s1)
            \<and> (roundOver p - EPSILON \<le> th * (180 / pi)
                \<or> (isSpiraling s1 \<and> y_st s + h * sin th \<le> 0))"
proof -
  obtain th s1 where st: "solveTheta p h (getTargetArea p (l_st s + h)) s = (th, s1)"
    by (cases "solveTheta p h (getTargetArea p (l_st s + h)) s")
  note f = solveTheta_fields[OF st]
  from assms st f show ?thesis
    by (auto simp: loopBody_def Let_def split: if_splits)
qed

lemma loopBody_accepts:
  assumes "solveTheta p h (getTargetArea p (l_st s + h)) s = (th, s1)"
    and "th * (180 / pi) < roundOver p - EPSILON"
    and "isSpiraling s1 \<Longrightarrow> 0 < y_st s + h * sin th"
  shows "\<exists>s'. loopBody p h i s = Continue s'"
proof (cases "loopBody p h i s")
  case (Break s')
  from loopBody_Break_cond[OF Break] assms show ?thesis by auto
next
  case (Continue s')
  then show ?thesis by blast
qed

lemma deg_less: "th < c * pi \<Longrightarrow> th * (180 / pi) < 180 * c"
proof -
  assume "th < c * pi"
  then have "th / pi < c" by (simp add: field_simps)
  then have "180 * (th / pi) < 180 * c" by simp
  then show ?thesis by (simp add: field_simps)
qed

lemma deg_greater: "c * pi < th \<Longrightarrow> 180 * c < th * (180 / pi)"
proof -
  assume "c * pi < th"
  then have "c < th / pi" by (simp add: field_simps)
  then have "180 * c < 180 * (th / pi)" by simp
  then show ?thesis by (simp add: field_simps)
qed

lemma areaBelow_half: "areaBelow y0 h S (pi / 2) \<longleftrightarrow> 2 * pi * (y0 + h) * (y0 + h) < S"
  by (simp add: areaBelow_def Let_def)

lemma exp_quadratic_lower:
  assumes "0 \<le> z0" and "z0 \<le> z"
  shows "1 + z0 + z0\<^sup>2 / 2 \<le> exp (z::real)"
proof -
  have "1 + z0 + z0\<^sup>2 / 2 \<le> exp z0" using assms(1) by (rule exp_lower_Taylor_quadratic)
  also have "\<dots> \<le> exp z" using assms(2) by simp
  finally show ?thesis .
qed

lemma deepRollback_nondeg: "getM deepRollback \<noteq> 0" "0 < d0 deepRollback"
  by (simp_all add: deepRollback_def getM_def C_SOUND_def)

lemma deepRollback_area: "getTargetArea deepRollback len = 10000 * pi * exp (getM deepRollback * len)"
proof -
  have "(cosh (getM deepRollback * len / 2) + sinh (getM deepRollback * len / 2))
          * (cosh (getM deepRollback * len / 2) + sinh (getM deepRollback * len / 2)) = exp (getM deepRollback * len)"
    by (simp add: cosh_plus_sinh flip: exp_add)
  then show ?thesis
    by (simp add: getTargetArea_def Let_def deepRollback_def[THEN arg_cong, of T] deepRollback_def[THEN arg_cong, of d0] mult.assoc)
qed

lemma deepRollback_m_lower: "2 / 43 \<le> getM deepRollback"
proof -
  have "getM deepRollback = pi * (10 / 429)" by (simp add: getM_def deepRollback_def C_SOUND_def)
  moreover have "2 * (10 / 429) \<le> pi * (10 / 429)" using pi_ge_two by simp
  ultimately show ?thesis by simp
qed

lemma deepRollback_area_lower:
  assumes "0 \<le> c" and "c \<le> 2 / 43 * len" and "0 \<le> len"
    and "k \<le> 10000 * (1 + c + c\<^sup>2 / 2)"
  shows "k * pi \<le> getTargetArea deepRollback len"
proof -
  have "2 / 43 * len \<le> getM deepRollback * len" using deepRollback_m_lower assms(3) by (rule mult_right_mono)
  with assms(2) have "c \<le> getM deepRollback * len" by simp
  from exp_quadratic_lower[OF assms(1) this]
  have "10000 * (1 + c + c\<^sup>2 / 2) * pi \<le> 10000 * exp (getM deepRollback * len) * pi"
    by simp
  moreover have "k * pi \<le> 10000 * (1 + c + c\<^sup>2 / 2) * pi"
    using assms(4) by (simp del: distrib_left_numeral)
  ultimately show ?thesis
    by (simp add: deepRollback_area mult.commute mult.left_commute)
qed

lemma deepRollback_init: "y_st (initState deepRollback) = 100" "l_st (initState deepRollback) = 0" "\<not> isSpiraling (initState deepRollback)"
  "previousAngle (initState deepRollback) = 0" "previousDelta (initState deepRollback) = 0"
  "spiralStepCount (initState deepRollback) = 0"
  by (simp_all add: initState_def deepRollback_def)

lemma deepRollback_roundOver: "roundOver deepRollback - EPSILON = 719.995"
  by (simp add: deepRollback_def EPSILON_def)

lemma deepRollback_step0:
  "\<exists>u1 th0. reach deepRollback 40 1 u1 \<and> loopBody deepRollback 40 0 (initState deepRollback) = Continue u1
      \<and> pi / 2 < th0 \<and> th0 < pi \<and> \<not> isSpiraling u1
      \<and> previousAngle u1 = th0 \<and> previousDelta u1 = th0
      \<and> y_st u1 = 100 + 40 * sin th0 \<and> l_st u1 = 40 \<and> spiralStepCount u1 = 0"
proof -
  let ?s = "initState deepRollback"
  let ?S = "getTargetArea deepRollback (l_st ?s + 40)"
  obtain lo hi th0 where sb: "solveBisection (y_st ?s) 40 ?S = (lo, hi, th0)"
    by (cases "solveBisection (y_st ?s) 40 ?S")
  have "45000 * pi \<le> getTargetArea deepRollback 40"
    by (rule deepRollback_area_lower[of "1.85"]) (simp_all add: power2_eq_square)
  moreover have "2 * pi * (100 + 40) * (100 + 40) = 39200 * pi"
    by simp
  ultimately have "2 * pi * (100 + 40) * (100 + 40) < getTargetArea deepRollback 40"
    using pi_gt_zero by linarith
  then have "areaBelow (y_st ?s) 40 ?S (pi / 2)"
    by (simp add: areaBelow_half deepRollback_init)
  from bisect_below_half[OF this sb] have th: "pi / 2 < th0" "th0 < pi" by simp_all
  note ns = deepRollback_init(3)
  have st: "solveTheta deepRollback 40 ?S ?s = (th0, ?s)"
    using solveTheta_physical[OF ns sb, of deepRollback] th by (simp add: deepRollback_init)
  have deg: "th0 * (180 / pi) < roundOver deepRollback - EPSILON"
    using deg_less[of th0 1] th by (simp add: deepRollback_roundOver)
  from loopBody_accepts[OF st deg, of 0] ns obtain u1 where
    c: "loopBody deepRollback 40 0 ?s = Continue u1" by blast
  have r: "reach deepRollback 40 (0 + 1) u1"
    by (rule reach_step[OF reach_init _ c]) (simp add: MAX_STEPS_def)
  from loopBody_Continue[OF c] st r th c show ?thesis
    by (auto simp: deepRollback_init)
qed

lemma deepRollback_step1:
  "\<exists>u1 u2 th0 s1. reach deepRollback 40 1 u1 \<and> \<not> isSpiraling u1 \<and> previousDelta u1 = th0
      \<and> solveTheta deepRollback 40 (getTargetArea deepRollback (l_st u1 + 40)) u1 = (previousAngle u1 + th0, s1)
      \<and> isSpiraling s1
      \<and> reach deepRollback 40 2 u2 \<and> loopBody deepRollback 40 1 u1 = Continue u2
      \<and> pi / 2 < th0 \<and> th0 < pi \<and> isSpiraling u2
      \<and> baseDeltaTheta u2 = th0 \<and> spiralStepCount u2 = 0 \<and> previousAngle u2 = 2 * th0
      \<and> 60 \<le> y_st u2"
proof -
  from deepRollback_step0 obtain u1 th0 where u1: "reach deepRollback 40 1 u1" "pi / 2 < th0" "th0 < pi"
    "\<not> isSpiraling u1" "previousAngle u1 = th0" "previousDelta u1 = th0"
    "y_st u1 = 100 + 40 * sin th0" "l_st u1 = 40" "spiralStepCount u1 = 0" by blast
  let ?S = "getTargetArea deepRollback (l_st u1 + 40)"
  obtain lo hi thb where sb: "solveBisection (y_st u1) 40 ?S = (lo, hi, thb)"
    by (cases "solveBisection (y_st u1) 40 ?S")
  have s0: "0 < sin th0" using u1(2,3) by (intro sin_gt_zero) simp_all
  have y1: "100 \<le> y_st u1" "y_st u1 \<le> 140" using s0 sin_le_one[of th0] u1(7) by simp_all
  have "100000 * pi \<le> getTargetArea deepRollback 80"
    by (rule deepRollback_area_lower[of "3.7"]) (simp_all add: power2_eq_square)
  moreover have "(y_st u1 + 40) * (y_st u1 + 40) \<le> 180 * 180"
    using y1 by (intro mult_mono) simp_all
  then have "2 * pi * ((y_st u1 + 40) * (y_st u1 + 40)) \<le> 2 * pi * (180 * 180)"
    by (intro mult_left_mono) simp_all
  moreover have "2 * pi * (180 * 180) = 64800 * pi" by simp
  moreover have "2 * pi * (y_st u1 + 40) * (y_st u1 + 40) = 2 * pi * ((y_st u1 + 40) * (y_st u1 + 40))"
    by (simp only: mult.assoc)
  ultimately have "2 * pi * (y_st u1 + 40) * (y_st u1 + 40) < getTargetArea deepRollback 80"
    using pi_gt_zero by linarith
  then have "areaBelow (y_st u1) 40 ?S (pi / 2)"
    by (simp add: areaBelow_half u1(8))
  from bisect_below_half[OF this sb] have thb: "pi / 2 < thb" "thb < pi" by simp_all
  have d: "90 < thb * (180 / pi)" using deg_greater[of "1 / 2" thb] thb by simp
  let ?s1 = "u1\<lparr>isSpiraling := True, baseDeltaTheta := previousDelta u1\<rparr>"
  have st: "solveTheta deepRollback 40 ?S u1 = (previousAngle u1 + th0, ?s1)"
    using solveTheta_physical[OF u1(4) sb, of deepRollback] thb d u1(2,3,5,6) by (simp add: deepRollback_def)
  have deg: "(previousAngle u1 + th0) * (180 / pi) < roundOver deepRollback - EPSILON"
    using deg_less[of "th0 + th0" 2] u1(2,3,5) by (simp add: deepRollback_roundOver)
  have yy: "0 < y_st u1 + 40 * sin (previousAngle u1 + th0)"
    using y1 sin_ge_minus_one[of "previousAngle u1 + th0"] by linarith
  from loopBody_accepts[OF st deg, of 1] yy obtain u2 where
    c: "loopBody deepRollback 40 1 u1 = Continue u2" by blast
  have "reach deepRollback 40 (1 + 1) u2"
    by (rule reach_step[OF u1(1) _ c]) (simp add: MAX_STEPS_def)
  then have r: "reach deepRollback 40 2 u2" by (simp only: one_add_one)
  have is1: "isSpiraling ?s1" by simp
  from loopBody_Continue[OF c] st have p2: "isSpiraling u2" "baseDeltaTheta u2 = th0"
    "spiralStepCount u2 = 0" "previousAngle u2 = 2 * th0"
    "y_st u2 = y_st u1 + 40 * sin (previousAngle u1 + th0)"
    by (simp_all add: u1)
  have "60 \<le> y_st u1 + 40 * sin (previousAngle u1 + th0)"
    using y1 sin_ge_minus_one[of "previousAngle u1 + th0"] by linarith
  then have y2: "60 \<le> y_st u2" by (simp add: p2(5))
  from u1(1,4,6) st is1 r c u1(2,3) p2(1-4) y2 show ?thesis by blast
qed

lemma deepRollback_step2:
  "\<exists>u2 u3. reach deepRollback 40 2 u2 \<and> isSpiraling u2 \<and> reach deepRollback 40 3 u3 \<and> isSpiraling u3
      \<and> loopBody deepRollback 40 2 u2 = Continue u3"
proof -
  from deepRollback_step1 obtain u2 th0 where u2: "reach deepRollback 40 2 u2" "pi / 2 < th0" "th0 < pi" "isSpiraling u2"
    "baseDeltaTheta u2 = th0" "spiralStepCount u2 = 0" "previousAngle u2 = 2 * th0" "60 \<le> y_st u2"
    by blast
  let ?S = "getTargetArea deepRollback (l_st u2 + 40)"
  let ?th = "previousAngle u2 + baseDeltaTheta u2 * growthRate ^ (spiralStepCount u2 + 1)"
  let ?s1 = "u2\<lparr>spiralStepCount := spiralStepCount u2 + 1\<rparr>"
  have st: "solveTheta deepRollback 40 ?S u2 = (?th, ?s1)"
    by (rule solveTheta_spiral[OF u2(4)])
  have "?th = 3.005 * th0" using u2 by (simp add: growthRate_def)
  moreover have "3.005 * th0 < 3.005 * pi" using u2(3) by simp
  ultimately have "?th < 3.005 * pi" by simp
  from deg_less[OF this] have "?th * (180 / pi) < 180 * 3.005" .
  moreover have "180 * 3.005 < roundOver deepRollback - EPSILON"
    by (simp add: deepRollback_roundOver)
  ultimately have deg: "?th * (180 / pi) < roundOver deepRollback - EPSILON"
    by (rule less_trans)
  have yy: "0 < y_st u2 + 40 * sin ?th"
    using u2(8) sin_ge_minus_one[of ?th] by linarith
  from loopBody_accepts[OF st deg, of 2] yy obtain u3 where
    c: "loopBody deepRollback 40 2 u2 = Continue u3" by blast
  have "reach deepRollback 40 (2 + 1) u3"
    by (rule reach_step[OF u2(1) _ c]) (simp add: MAX_STEPS_def)
  moreover have "(2::nat) + 1 = 3" by simp
  ultimately have r: "reach deepRollback 40 3 u3" by (simp only:)
  from loopBody_Continue[OF c] st u2(4) have "isSpiraling u3" by simp
  with u2(1,4) r c show ?thesis by blast
qed

section \<open>Invariants of the run\<close>

lemma reach_spiral_positive:
  "reach p h i s \<Longrightarrow> isSpiraling s \<Longrightarrow> 0 < y_st s"
proof (induction rule: reach.induct)
  case reach_init
  then show ?case by (simp add: initState_def)
next
  case (reach_step i s s')
  from loopBody_Continue[OF reach_step.hyps(3)] reach_step.prems show ?case by auto
qed



lemma first_angle_positive:
  "0 < snd (snd (solveBisection y0 h S))"
proof -
  obtain lo hi th where sb: "solveBisection y0 h S = (lo, hi, th)"
    by (cases "solveBisection y0 h S")
  from solveBisection_inv[OF sb] sb show ?thesis by simp
qed


lemma nominal_nondeg: "getM nominal \<noteq> 0" "0 < d0 nominal"
  by (simp_all add: nominal_def getM_def C_SOUND_def)


lemma solveTheta_keeps_spiral:
  "isSpiraling s \<Longrightarrow> solveTheta p h S s = (th, s1) \<Longrightarrow> isSpiraling s1"
  by (auto simp: solveTheta_spiral)

lemma reach_physical_count:
  "reach p h i s \<Longrightarrow> \<not> isSpiraling s \<Longrightarrow> spiralStepCount s = 0"
proof (induction rule: reach.induct)
  case reach_init
  show ?case by (simp add: initState_def)
next
  case (reach_step i s s')
  from loopBody_Continue[OF reach_step.hyps(3)] obtain th s1 where
    t: "solveTheta p h (getTargetArea p (l_st s + h)) s = (th, s1)"
       "isSpiraling s' = isSpiraling s1" "spiralStepCount s' = spiralStepCount s1" by blast
  from t(2) reach_step.prems have n1: "\<not> isSpiraling s1" by simp
  with solveTheta_keeps_spiral[OF _ t(1)] have ns: "\<not> isSpiraling s" by blast
  obtain lo hi thb where sb: "solveBisection (y_st s) h (getTargetArea p (l_st s + h)) = (lo, hi, thb)"
    by (cases "solveBisection (y_st s) h (getTargetArea p (l_st s + h))")
  from solveTheta_physical[OF ns sb, of p] t(1) n1 have "s1 = s"
    by (auto split: if_splits)
  with t(3) reach_step.IH[OF ns] show ?case by simp
qed

lemma reach_spiral_mono:
  "reach p h n t \<Longrightarrow> reach p h i s \<Longrightarrow> isSpiraling s \<Longrightarrow> i \<le> n \<Longrightarrow> isSpiraling t"
proof (induction rule: reach.induct)
  case reach_init
  then have "i = 0" by simp
  with reach_init reach_det[OF reach.reach_init, of p h s] show ?case by auto
next
  case (reach_step n t t')
  show ?case
  proof (cases "i = n + 1")
    case True
    with reach_step.prems reach.reach_step[OF reach_step.hyps] show ?thesis
      using reach_det by blast
  next
    case False
    with reach_step.prems have "i \<le> n" by simp
    from reach_step.IH[OF reach_step.prems(1,2) this] have sp: "isSpiraling t" .
    from loopBody_Continue[OF reach_step.hyps(3)] obtain th s1 where
      t: "solveTheta p h (getTargetArea p (l_st t + h)) t = (th, s1)"
         "isSpiraling t' = isSpiraling s1" by blast
    from solveTheta_keeps_spiral[OF sp t(1)] t(2) show ?thesis by simp
  qed
qed

lemma reach_pred:
  assumes "reach p h (Suc n) s"
  shows "\<exists>v. reach p h n v \<and> n < MAX_STEPS \<and> loopBody p h n v = Continue s"
  using assms by (cases rule: reach.cases) auto

lemma after_transition:
  assumes u: "reach p h k u" "\<not> isSpiraling u"
    and st: "solveTheta p h (getTargetArea p (l_st u + h)) u = (th0, u1)" "isSpiraling u1"
  shows "reach p h (k + Suc n) s \<Longrightarrow>
           isSpiraling s \<and> baseDeltaTheta s = previousDelta u \<and> spiralStepCount s = n"
proof (induction n arbitrary: s)
  case 0
  then have "reach p h (Suc k) s" by simp
  from reach_pred[OF this] obtain v where v: "reach p h k v" "loopBody p h k v = Continue s" by blast
  from reach_det[OF v(1) u(1)] have "v = u" .
  with loopBody_Continue[OF v(2)] st(1) have
    s: "isSpiraling s = isSpiraling u1" "baseDeltaTheta s = baseDeltaTheta u1"
       "spiralStepCount s = spiralStepCount u1" by auto
  obtain lo hi thb where sb: "solveBisection (y_st u) h (getTargetArea p (l_st u + h)) = (lo, hi, thb)"
    by (cases "solveBisection (y_st u) h (getTargetArea p (l_st u + h))")
  from solveTheta_physical[OF u(2) sb, of p] st u(2)
  have "u1 = u\<lparr>isSpiraling := True, baseDeltaTheta := previousDelta u\<rparr>"
    by (auto split: if_splits)
  with s st(2) reach_physical_count[OF u] show ?case by simp
next
  case (Suc n)
  then have "reach p h (Suc (k + Suc n)) s" by simp
  from reach_pred[OF this] obtain v where
    v: "reach p h (k + Suc n) v" "loopBody p h (k + Suc n) v = Continue s" by blast
  from Suc.IH[OF v(1)] have iv: "isSpiraling v" "baseDeltaTheta v = previousDelta u"
    "spiralStepCount v = n" by simp_all
  from loopBody_Continue[OF v(2)] solveTheta_spiral[OF iv(1), of p h] iv show ?case
    by auto
qed

lemma reach_physical_delta:
  assumes "reach p h i s" and "\<not> isSpiraling s" and "1 \<le> i" and "reach p h (i - 1) u"
  shows "previousDelta s = previousAngle s - previousAngle u"
proof -
  from assms(1,3) have "reach p h (Suc (i - 1)) s" by simp
  from reach_pred[OF this] obtain v where
    v: "reach p h (i - 1) v" "loopBody p h (i - 1) v = Continue s" by blast
  from reach_det[OF v(1) assms(4)] have "v = u" .
  with loopBody_Continue[OF v(2)] assms(2) show ?thesis by auto
qed


section \<open>Bounds for the bisection bracket\<close>

lemma one_plus_cos_pos: "0 \<le> th \<Longrightarrow> th < pi \<Longrightarrow> 0 < 1 + cos th"
  using cos_monotone_0_pi[of th pi] by simp

lemma areaBelow_zero: "areaBelow y0 h S 0 \<longleftrightarrow> pi * y0\<^sup>2 < S"
  by (simp add: areaBelow_def Let_def power2_eq_square)

lemma areaBelow_iff:
  assumes "1 + cos th \<noteq> 0"
  shows "areaBelow y0 h S th \<longleftrightarrow> 2 * pi * (y0 + h * sin th)\<^sup>2 / (1 + cos th) < S"
  using assms by (simp add: areaBelow_def Let_def power2_eq_square mult.assoc)

lemma geometry_area_crossing:
  assumes "0 \<le> lo" and "lo \<le> hi" and "hi < pi"
    and "areaBelow y0 h S lo" and "\<not> areaBelow y0 h S hi"
  shows "\<exists>th. lo \<le> th \<and> th \<le> hi \<and> 2 * pi * (y0 + h * sin th)\<^sup>2 / (1 + cos th) = S"
proof -
  let ?f = "\<lambda>th. 2 * pi * (y0 + h * sin th)\<^sup>2 / (1 + cos th)"
  have nz: "1 + cos th \<noteq> 0" if "th \<in> {lo..hi}" for th
    using one_plus_cos_pos[of th] that assms(1,3) by auto
  have c: "continuous_on {lo..hi} ?f"
    by (intro continuous_intros) (use nz in auto)
  have "lo \<in> {lo..hi}" "hi \<in> {lo..hi}" using assms(2) by simp_all
  with nz have "1 + cos lo \<noteq> 0" "1 + cos hi \<noteq> 0" by blast+
  with assms(4,5) have "?f lo \<le> S" "S \<le> ?f hi"
    by (simp_all add: areaBelow_iff)
  from IVT'[of ?f lo S hi, OF this assms(2) c] show ?thesis .
qed

lemma bisect_above_half:
  assumes "\<not> areaBelow y0 h S (pi / 2)" and "solveBisection y0 h S = (lo, hi, th)"
  shows "0 < th \<and> th < pi / 2 \<and> hi \<le> pi / 2"
proof -
  have e: "(49::nat) = Suc 48" by simp
  have "bisect y0 h S 49 (0, pi, pi) = bisect y0 h S 48 (0, pi / 2, pi / 2)"
    unfolding e bisect.simps Let_def using assms(1) by simp
  with assms(2) have b: "bisect y0 h S 48 (0, pi / 2, pi / 2) = (lo, hi, th)"
    by (simp add: solveBisection_first)
  have "0 < pi / 2" by simp
  from bisect_inv[OF b this] show ?thesis by auto
qed

lemma geometry_area_lower:
  assumes "0 < th" and "th < pi" and "0 \<le> y0" and "0 \<le> h"
  shows "pi * y0\<^sup>2 \<le> 2 * pi * (y0 + h * sin th)\<^sup>2 / (1 + cos th)"
proof -
  have d: "0 < 1 + cos th" using one_plus_cos_pos[of th] assms(1,2) by simp
  have "0 \<le> h * sin th" using assms sin_gt_zero[of th] by simp
  then have "y0 \<le> y0 + h * sin th" by simp
  then have "y0\<^sup>2 \<le> (y0 + h * sin th)\<^sup>2" using assms(3) by (intro power_mono)
  then have "pi * y0\<^sup>2 * 2 \<le> 2 * pi * (y0 + h * sin th)\<^sup>2" by simp
  moreover have "pi * y0\<^sup>2 * (1 + cos th) \<le> pi * y0\<^sup>2 * 2"
    by (intro mult_left_mono) simp_all
  ultimately have "pi * y0\<^sup>2 * (1 + cos th) \<le> 2 * pi * (y0 + h * sin th)\<^sup>2" by linarith
  with d show ?thesis by (simp add: pos_le_divide_eq)
qed

lemma nominal_area: "getTargetArea nominal len = 324 * pi * exp (getM nominal * len)"
proof -
  have "(cosh (getM nominal * len / 2) + sinh (getM nominal * len / 2))
          * (cosh (getM nominal * len / 2) + sinh (getM nominal * len / 2)) = exp (getM nominal * len)"
    by (simp add: cosh_plus_sinh flip: exp_add)
  then show ?thesis
    by (simp add: getTargetArea_def Let_def nominal_def[THEN arg_cong, of T]
        nominal_def[THEN arg_cong, of d0] mult.assoc)
qed

lemma nominal_m_bounds: "0 < getM nominal" "getM nominal \<le> 2 / 100"
proof -
  have e: "getM nominal = pi * (17 / 4290)" by (simp add: getM_def nominal_def C_SOUND_def)
  show "0 < getM nominal" unfolding e by simp
  have "pi * (17 / 4290) \<le> 4 * (17 / 4290)" using pi_less_4 by simp
  then show "getM nominal \<le> 2 / 100" unfolding e by simp
qed

lemma nominal_first_area:
  "324 * pi < getTargetArea nominal (1 / 2)" "getTargetArea nominal (1 / 2) \<le> 330 * pi"
proof -
  let ?z = "getM nominal * (1 / 2)"
  have z: "0 < ?z" "?z \<le> 1 / 100" using nominal_m_bounds by simp_all
  then have "1 < exp ?z" by simp
  then have "324 * pi * 1 < 324 * pi * exp ?z" by (intro mult_strict_left_mono) simp_all
  then show "324 * pi < getTargetArea nominal (1 / 2)" by (simp add: nominal_area)
  have "exp ?z \<le> 1 + ?z + ?z\<^sup>2" using z by (intro exp_bound) simp_all
  moreover have "?z\<^sup>2 \<le> (1 / 100)\<^sup>2" using z by (intro power_mono) simp_all
  ultimately have "exp ?z \<le> 330 / 324" using z(2) by (simp add: power2_eq_square)
  then have "324 * pi * exp ?z \<le> 324 * pi * (330 / 324)" by (intro mult_left_mono) simp_all
  then show "getTargetArea nominal (1 / 2) \<le> 330 * pi" by (simp add: nominal_area)
qed

lemma nominal_init: "y_st (initState nominal) = 18" "l_st (initState nominal) = 0"
  "\<not> isSpiraling (initState nominal)" "previousAngle (initState nominal) = 0"
  "previousDelta (initState nominal) = 0"
  by (simp_all add: initState_def nominal_def)

lemma negT_area:
  "getTargetArea (nominal\<lparr>T := - 1\<rparr>) len = 324 * pi * exp (- (getM nominal * len))"
proof -
  have m: "getM (nominal\<lparr>T := - 1\<rparr>) = getM nominal" by (simp add: getM_def)
  have "(cosh (getM nominal * len / 2) - sinh (getM nominal * len / 2))
          * (cosh (getM nominal * len / 2) - sinh (getM nominal * len / 2))
        = exp (- (getM nominal * len))"
    by (simp add: cosh_minus_sinh flip: exp_add)
  then show ?thesis
    by (simp add: getTargetArea_def Let_def m nominal_def[THEN arg_cong, of d0] mult.assoc)
qed

lemma negT_first_area:
  "getTargetArea (nominal\<lparr>T := - 1\<rparr>) (1 / 2) \<le> 324 * pi - 2"
proof -
  let ?z = "getM nominal * (1 / 2)"
  have "getM nominal = pi * (17 / 4290)" by (simp add: getM_def nominal_def C_SOUND_def)
  moreover have "2 * (17 / 4290) \<le> pi * (17 / 4290)" using pi_ge_two by simp
  ultimately have z: "39 / 10000 \<le> ?z" by simp
  have "1 + 39 / 10000 \<le> 1 + ?z" using z by simp
  also have "\<dots> \<le> exp ?z" by simp
  finally have "10039 / 10000 \<le> exp ?z" by simp
  then have "inverse (exp ?z) \<le> inverse (10039 / 10000)"
    by (intro le_imp_inverse_le) simp_all
  then have "exp (- ?z) \<le> 10000 / 10039" by (simp add: exp_minus)
  then have "324 * pi * exp (- ?z) \<le> 324 * pi * (10000 / 10039)"
    by (intro mult_left_mono) simp_all
  moreover have "324 * pi * (10000 / 10039) \<le> 324 * pi - 2" using pi_ge_two by simp
  ultimately show ?thesis unfolding negT_area by (rule order_trans)
qed

lemma never_below_result:
  assumes "S \<le> pi * y0\<^sup>2" and "0 \<le> y0" and "0 \<le> h"
  shows "solveBisection y0 h S = (0, pi / 2 ^ 49, pi / 2 ^ 49)"
proof -
  have nb: "\<not> areaBelow y0 h S t" if "0 < t" "t < pi" for t
  proof -
    have "1 + cos t \<noteq> 0" using one_plus_cos_pos[of t] that by simp
    moreover have "pi * y0\<^sup>2 \<le> 2 * pi * (y0 + h * sin t)\<^sup>2 / (1 + cos t)"
      by (rule geometry_area_lower[OF that assms(2,3)])
    ultimately show ?thesis using assms(1) by (simp add: areaBelow_iff)
  qed
  have "bisect y0 h S 49 (0, pi, pi)
          = (0, 0 + (pi - 0) / 2 ^ 49, if (49::nat) = 0 then pi else 0 + (pi - 0) / 2 ^ 49)"
    by (rule bisect_never_below) (use nb in simp_all)
  then show ?thesis by (simp add: solveBisection_first)
qed


section \<open>Rounding to a double\<close>

lemma pow2_pos: "0 < pow2 k"
  by (simp add: pow2_def)

lemma pow2_powr: "pow2 k = 2 powr (of_int k)"
  by (simp add: pow2_def powr_int)

lemma roundToDouble_eval:
  assumes "pow2 e \<le> \<bar>v\<bar>" and "\<bar>v\<bar> < pow2 (e + 1)" and "- 1022 \<le> e"
  shows "roundToDouble v = of_int (roundHalfEven (v / pow2 (e - 52))) * pow2 (e - 52)"
proof -
  have pos: "0 < \<bar>v\<bar>" using assms(1) pow2_pos[of e] by linarith
  have "\<lfloor>log 2 \<bar>v\<bar>\<rfloor> = e"
    using assms(1,2) pos by (subst floor_log_eq_powr_iff) (simp_all add: pow2_powr)
  with assms(3) pos show ?thesis by (simp add: roundToDouble_def Let_def max_def)
qed

lemma roundHalfEven_error: "\<bar>of_int (roundHalfEven q) - q\<bar> \<le> 1 / 2"
proof -
  have "of_int \<lfloor>q\<rfloor> \<le> q" "q < of_int \<lfloor>q\<rfloor> + 1" by linarith+
  then show ?thesis by (auto simp: roundHalfEven_def Let_def)
qed

lemma roundToDouble_error:
  assumes "pow2 (- 1022) \<le> \<bar>v\<bar>"
  shows "\<bar>roundToDouble v - v\<bar> \<le> \<bar>v\<bar> / 2 ^ 53"
proof -
  define e where "e = \<lfloor>log 2 \<bar>v\<bar>\<rfloor>"
  define u where "u = pow2 (e - 52)"
  have pos: "0 < \<bar>v\<bar>" using assms pow2_pos[of "- 1022"] by linarith
  have le: "pow2 e \<le> \<bar>v\<bar>"
    using floor_log_eq_powr_iff[of "\<bar>v\<bar>" 2 e] pos by (simp add: e_def pow2_powr)
  have "2 powr (- 1022) \<le> \<bar>v\<bar>" using assms by (simp add: pow2_powr)
  then have "- 1022 \<le> log 2 \<bar>v\<bar>" using pos by (simp add: le_log_iff)
  then have e: "- 1022 \<le> e" unfolding e_def by (simp add: le_floor_iff)
  have u: "0 < u" "u = pow2 e / 2 ^ 52"
    by (simp_all add: u_def pow2_pos pow2_powr powr_diff)
  have m: "max \<lfloor>log 2 \<bar>v\<bar>\<rfloor> (- 1022) = e" using e by (simp add: e_def)
  have rd: "roundToDouble v = of_int (roundHalfEven (v / u)) * u"
    using pos by (simp add: roundToDouble_def Let_def m u_def)
  have "of_int (roundHalfEven (v / u)) * u - v = (of_int (roundHalfEven (v / u)) - v / u) * u"
    using u(1) by (simp add: left_diff_distrib)
  then have "\<bar>of_int (roundHalfEven (v / u)) * u - v\<bar>
               = \<bar>of_int (roundHalfEven (v / u)) - v / u\<bar> * \<bar>u\<bar>"
    by (simp only: abs_mult)
  also have "\<dots> = \<bar>of_int (roundHalfEven (v / u)) - v / u\<bar> * u"
    using u(1) by simp
  also have "\<dots> \<le> 1 / 2 * u"
    using roundHalfEven_error[of "v / u"] u(1) by (intro mult_right_mono) simp_all
  also have "\<dots> = pow2 e / 2 ^ 53" by (simp add: u(2))
  also have "\<dots> \<le> \<bar>v\<bar> / 2 ^ 53" using le by (simp add: divide_right_mono)
  finally show ?thesis by (simp add: rd)
qed

text \<open>The quotients of the examples, and the doubles the candidate search meets at \<open>10^21\<close>.\<close>

lemma roundToDouble_36: "roundToDouble (36 / 10) = 8106479329266893 / 2 ^ 51"
  by (subst roundToDouble_eval[of 1]) (simp_all add: pow2_def roundHalfEven_def Let_def)

lemma roundToDouble_18: "roundToDouble (18 / 10) = 8106479329266893 / 2 ^ 52"
  by (subst roundToDouble_eval[of 0]) (simp_all add: pow2_def roundHalfEven_def Let_def)

lemma roundToDouble_tie: "roundToDouble (1875 / 10000 / 10) = 5404319552844595 / 2 ^ 58"
  by (subst roundToDouble_eval[of "- 6"]) (simp_all add: pow2_def roundHalfEven_def Let_def)

lemma roundToDouble_1e22_by_10:
  "roundToDouble (10000000000000000000000 / 10) = 1000000000000000000000"
  by (subst roundToDouble_eval[of 69]) (simp_all add: pow2_def roundHalfEven_def Let_def)

lemma roundToDouble_1e21: "roundToDouble 1000000000000000000000 = 1000000000000000000000"
  by (subst roundToDouble_eval[of 69]) (simp_all add: pow2_def roundHalfEven_def Let_def)

lemma roundToDouble_2e21: "roundToDouble 2000000000000000000000 = 2000000000000000000000"
  by (subst roundToDouble_eval[of 70]) (simp_all add: pow2_def roundHalfEven_def Let_def)

lemma roundToDouble_1e22: "roundToDouble 10000000000000000000000 = 10000000000000000000000"
  by (subst roundToDouble_eval[of 73]) (simp_all add: pow2_def roundHalfEven_def Let_def)

section \<open>Decimal formatting\<close>

lemma digitChar_value: "d < 10 \<Longrightarrow> (of_char (digitChar d) :: nat) = 48 + d"
proof -
  assume "d < 10"
  then have "d = 0 \<or> d = 1 \<or> d = 2 \<or> d = 3 \<or> d = 4 \<or> d = 5 \<or> d = 6 \<or> d = 7
    \<or> d = 8 \<or> d = 9" by presburger
  then show ?thesis by (elim disjE) (simp_all add: digitChar_def)
qed

lemma digitChar_digit: "d < 10 \<Longrightarrow> digitChar d \<in> set ''0123456789''"
  unfolding digitChar_def by (rule nth_mem) simp

lemma valueOf_snoc: "valueOf (cs @ [c]) = 10 * valueOf cs + (of_char c - 48)"
  by (simp add: valueOf_def)

lemma valueOf_digitsOf: "valueOf (digitsOf n) = n"
proof (induction n rule: digitsOf.induct)
  case (1 n)
  show ?case
  proof (cases "n < 10")
    case True
    then show ?thesis
      by (subst digitsOf.simps) (simp add: valueOf_def digitChar_value)
  next
    case False
    have "n mod 10 < 10" by simp
    from digitChar_value[OF this] "1.IH"[OF False] False show ?thesis
      by (subst digitsOf.simps) (simp add: valueOf_snoc)
  qed
qed

lemma digitsOf_digits: "set (digitsOf n) \<subseteq> set ''0123456789''"
proof (induction n rule: digitsOf.induct)
  case (1 n)
  show ?case
  proof (cases "n < 10")
    case True
    from digitChar_digit[OF True] True show ?thesis
      by (subst digitsOf.simps) simp
  next
    case False
    have "n mod 10 < 10" by simp
    from digitChar_digit[OF this] "1.IH"[OF False] False show ?thesis
      by (subst digitsOf.simps) simp
  qed
qed

lemma digitsOf_nonempty: "digitsOf n \<noteq> []"
  by (subst digitsOf.simps) simp

lemma valueOf_zeros: "valueOf (replicate z (CHR ''0'') @ cs) = valueOf cs"
proof -
  have "foldl (\<lambda>a c. 10 * a + (of_char c - 48)) (0::nat) (replicate z (CHR ''0'')) = 0"
    by (induction z) simp_all
  then show ?thesis by (simp add: valueOf_def)
qed

lemma toFixed_shape:
  assumes "\<bar>v\<bar> < 10 ^ 21" and "f \<noteq> 0"
  shows "\<exists>ip fp. toFixed f v = (if v < 0 then ''-'' else '''') @ ip @ ''.'' @ fp
           \<and> length fp = f \<and> ip \<noteq> []
           \<and> set (ip @ fp) \<subseteq> set ''0123456789''
           \<and> valueOf (ip @ fp) = nat \<lfloor>\<bar>v\<bar> * 10 ^ f + 1 / 2\<rfloor>"
proof -
  define n where "n = nat \<lfloor>\<bar>v\<bar> * 10 ^ f + 1 / 2\<rfloor>"
  define m where "m = (if n = 0 then ''0'' else digitsOf n)"
  define k where "k = length m"
  define m' where "m' = (if k \<le> f then replicate (f + 1 - k) (CHR ''0'') @ m else m)"
  define k' where "k' = (if k \<le> f then f + 1 else k)"
  have m: "m \<noteq> []" "set m \<subseteq> set ''0123456789''" "valueOf m = n"
    using digitsOf_nonempty[of n] digitsOf_digits[of n] valueOf_digitsOf[of n]
    by (auto simp: m_def valueOf_def)
  have len: "length m' = k'" "f < k'" by (auto simp: m'_def k'_def k_def)
  have m': "set m' \<subseteq> set ''0123456789''" "valueOf m' = n"
    using m by (auto simp: m'_def valueOf_zeros)
  have tf: "toFixed f v
              = (if v < 0 then ''-'' else '''') @ take (k' - f) m' @ ''.'' @ drop (k' - f) m'"
    using assms by (simp add: toFixed_def Let_def n_def m_def k_def m'_def k'_def)
  have "length (drop (k' - f) m') = f" "take (k' - f) m' \<noteq> []"
    "take (k' - f) m' @ drop (k' - f) m' = m'"
    using len by auto
  with tf m' show ?thesis unfolding n_def[symmetric] by metis
qed

lemma foldl_append_rows:
  "foldl (\<lambda>csv p. csv @ g p) acc ps = acc @ concat (map g ps)"
  by (induction ps arbitrary: acc) simp_all

lemma toFixed_36: "toFixed 4 (divDouble 36 10) = ''3.6000''"
  unfolding divDouble_def roundToDouble_36
  by (simp add: toFixed_def Let_def digitsOf.simps digitChar_def)

lemma toFixed_18: "toFixed 4 (divDouble 18 10) = ''1.8000''"
  unfolding divDouble_def roundToDouble_18
  by (simp add: toFixed_def Let_def digitsOf.simps digitChar_def)

lemma toFixed_tie: "toFixed 4 (divDouble (1875 / 10000) 10) = ''0.0187''"
  unfolding divDouble_def roundToDouble_tie
  by (simp add: toFixed_def Let_def digitsOf.simps digitChar_def)

lemma toFixed_zero: "toFixed 4 (divDouble 0 10) = ''0.0000''"
  by (simp add: divDouble_def roundToDouble_def toFixed_def Let_def eval_nat_numeral)

lemma decimalCandidates_1e21:
  "decimalCandidates 1000000000000000000000 (Suc 0) = [(22, Suc 0)]"
proof -
  have "length (digitsOf 1000000000000000000000) = 22"
    by (simp add: digitsOf.simps)
  then show ?thesis
    by (simp add: decimalCandidates_def roundToDouble_1e21 roundToDouble_2e21 roundToDouble_1e22)
qed

lemma numberToString_1e21: "numberToString 1000000000000000000000 = ''1e+21''"
proof -
  have u: "[1..<18] = Suc 0 # [2..<18]" by (simp add: upt_conv_Cons)
  have f: "find (\<lambda>k. decimalCandidates 1000000000000000000000 k \<noteq> []) [1..<18] = Some (Suc 0)"
    unfolding u by (subst find.simps) (simp add: decimalCandidates_1e21)
  have d: "digitsOf (Suc 0) = ''1''" "digitsOf 21 = ''21''"
    by (simp_all add: digitsOf.simps digitChar_def)
  show ?thesis
    unfolding numberToString_def f by (simp add: decimalCandidates_1e21 d)
qed

lemma toFixed_1e21: "toFixed 4 (divDouble 10000000000000000000000 10) = ''1e+21''"
  unfolding divDouble_def roundToDouble_1e22_by_10
  by (simp add: toFixed_def numberToString_1e21)

section \<open>The claims\<close>

lemma generateProfile_nonempty_nondeg:
  assumes "k < length (generateProfile p h)"
  shows "getM p \<noteq> 0" "0 < d0 p"
  using assms by (auto simp: generateProfile_def split: if_splits)

lemma profile_step:
  assumes "k + 1 < length (generateProfile p h)"
  shows "\<exists>u u' th s1. reach p h k u \<and> loopBody p h k u = Continue u' \<and> reach p h (k + 1) u'
           \<and> solveTheta p h (getTargetArea p (l_st u + h)) u = (th, s1)
           \<and> th * (180 / pi) < roundOver p - EPSILON
           \<and> generateProfile p h ! k = last (points u)
           \<and> generateProfile p h ! (k + 1) = emitted p h k u th"
proof -
  note nd = generateProfile_nonempty_nondeg[OF assms]
  from generateProfile_reach[OF nd assms] obtain v where v: "reach p h (k + 1) v" by blast
  from reach_earlier[OF v, of k] obtain u u' where
    u: "reach p h k u" "loopBody p h k u = Continue u'" "reach p h (k + 1) u'" by auto
  from loopBody_Continue[OF u(2)] obtain th s1 where
    t: "solveTheta p h (getTargetArea p (l_st u + h)) u = (th, s1)"
       "th * (180 / pi) < roundOver p - EPSILON"
       "points u' = points u @ [emitted p h k u th]" by blast
  from assms have k: "k < length (generateProfile p h)" by simp
  have "generateProfile p h ! k = last (points u)"
    by (rule generateProfile_nth[OF nd u(1) k])
  moreover have "generateProfile p h ! (k + 1) = last (points u')"
    by (rule generateProfile_nth[OF nd u(3) assms])
  ultimately show ?thesis using u t by auto
qed

text \<open>
  Claim C1. Every accepted step \<open>k \<ge> 1\<close> of \<open>generateProfile\<close>, with \<open>theta\<close> the wall
  angle solved in that step, emits a point with
  \<open>x\<^sub>k = x\<^sub>k\<^sub>-\<^sub>1 + stepSize * cos theta\<close>, \<open>y\<^sub>k = y\<^sub>k\<^sub>-\<^sub>1 + stepSize * sin theta\<close>,
  \<open>length\<^sub>k = length\<^sub>k\<^sub>-\<^sub>1 + stepSize\<close>, \<open>angle\<^sub>k = theta * 180 / pi\<close>,
  \<open>deltaAngle\<^sub>k = angle\<^sub>k - angle\<^sub>k\<^sub>-\<^sub>1\<close> and \<open>radius\<^sub>k = sqrt (S length\<^sub>k / pi)\<close>, where
  \<open>S l = pi * (d0 / 2)\<^sup>2 * (cosh (m * l / 2) + T * sinh (m * l / 2))\<^sup>2\<close> and
  \<open>m = 4 * pi * fc / 343200\<close>: the radius field is the equivalent-planar radius, not \<open>y\<close>.
\<close>

theorem C1_accepted_step:
  assumes "1 \<le> k" and "k < length (generateProfile p stepSize)"
  shows "\<exists>s theta s1. reach p stepSize (k - 1) s
           \<and> solveTheta p stepSize (getTargetArea p (l_st s + stepSize)) s = (theta, s1)
           \<and> x (generateProfile p stepSize ! k)
               = x (generateProfile p stepSize ! (k - 1)) + stepSize * cos theta
           \<and> y (generateProfile p stepSize ! k)
               = y (generateProfile p stepSize ! (k - 1)) + stepSize * sin theta
           \<and> length_pt (generateProfile p stepSize ! k)
               = length_pt (generateProfile p stepSize ! (k - 1)) + stepSize
           \<and> angle (generateProfile p stepSize ! k) = theta * 180 / pi
           \<and> deltaAngle (generateProfile p stepSize ! k)
               = angle (generateProfile p stepSize ! k) - angle (generateProfile p stepSize ! (k - 1))
           \<and> radius (generateProfile p stepSize ! k)
               = sqrt (pi * (d0 p / 2)\<^sup>2
                        * (cosh ((4 * pi * fc p / 343200) * length_pt (generateProfile p stepSize ! k) / 2)
                           + T p * sinh ((4 * pi * fc p / 343200) * length_pt (generateProfile p stepSize ! k) / 2))\<^sup>2
                       / pi)"
proof -
  from assms have k: "(k - 1) + 1 < length (generateProfile p stepSize)" "k - 1 + 1 = k" by simp_all
  from profile_step[OF k(1)] obtain u th s1 where
    u: "reach p stepSize (k - 1) u"
       "solveTheta p stepSize (getTargetArea p (l_st u + stepSize)) u = (th, s1)"
       "generateProfile p stepSize ! (k - 1) = last (points u)"
       "generateProfile p stepSize ! k = emitted p stepSize (k - 1) u th"
    unfolding k(2) by blast
  note rp = reach_points[OF u(1)]
  have a: "getTargetArea p len = pi * (d0 p / 2)\<^sup>2
             * (cosh ((4 * pi * fc p / 343200) * len / 2) + T p * sinh ((4 * pi * fc p / 343200) * len / 2))\<^sup>2" for len
    by (simp add: getTargetArea_def getM_def C_SOUND_def Let_def power2_eq_square)
  have e: "x (emitted p stepSize (k - 1) u th) = x (last (points u)) + stepSize * cos th"
    "y (emitted p stepSize (k - 1) u th) = y (last (points u)) + stepSize * sin th"
    "length_pt (emitted p stepSize (k - 1) u th) = length_pt (last (points u)) + stepSize"
    "angle (emitted p stepSize (k - 1) u th) = th * 180 / pi"
    "deltaAngle (emitted p stepSize (k - 1) u th)
       = angle (emitted p stepSize (k - 1) u th) - angle (last (points u))"
    using rp by (simp_all add: emitted_def diff_divide_distrib left_diff_distrib)
  have "radius (emitted p stepSize (k - 1) u th)
       = sqrt (getTargetArea p (length_pt (emitted p stepSize (k - 1) u th)) / pi)"
    by (simp add: emitted_def)
  then have r: "radius (emitted p stepSize (k - 1) u th)
       = sqrt (pi * (d0 p / 2)\<^sup>2
                * (cosh ((4 * pi * fc p / 343200) * length_pt (emitted p stepSize (k - 1) u th) / 2)
                   + T p * sinh ((4 * pi * fc p / 343200) * length_pt (emitted p stepSize (k - 1) u th) / 2))\<^sup>2
               / pi)"
    by (simp only: a)
  show ?thesis
    apply (rule exI[of _ u], rule exI[of _ th], rule exI[of _ s1])
    using u(1,2) e r by (simp only: u(3,4) simp_thms)
qed

theorem C1_accepted_step_witness:
  "(1::nat) \<le> 1 \<and> 1 < length (generateProfile deepRollback 40)
   \<and> (\<exists>theta. y (generateProfile deepRollback 40 ! 1) = y (generateProfile deepRollback 40 ! (1 - 1)) + 40 * sin theta
          \<and> angle (generateProfile deepRollback 40 ! 1) = theta * 180 / pi
          \<and> length_pt (generateProfile deepRollback 40 ! 1) = length_pt (generateProfile deepRollback 40 ! (1 - 1)) + 40)"
proof -
  from deepRollback_step2 obtain u3 where "reach deepRollback 40 3 u3" by blast
  from generateProfile_covers[OF deepRollback_nondeg this] have l: "1 < length (generateProfile deepRollback 40)" by simp
  have h: "(1::nat) \<le> 1" by simp
  from C1_accepted_step[OF h l] l show ?thesis by blast
qed

text \<open>
  Claim C2 says that in the physical regime each angle comes from 50 bisection
  iterations over \<open>[0, 2 pi]\<close> and that, consequently, the geometric area at every emitted
  physical-regime point equals \<open>S_target\<close> within the tolerance of the bisection. The
  second part fails when the target area lies below the geometric area at \<open>theta = 0\<close>:
  for \<open>T = -1\<close> (other parameters at their defaults, step 0.5) every comparison of the
  first solve lowers the upper bound, the step is emitted in the physical regime with the
  angle \<open>2 pi / 2^50\<close>, that is \<open>360 / 2^50\<close> degrees, and the geometric area computed from
  the emitted \<open>y\<close> exceeds the target by more than 2 square millimetres.
\<close>

theorem C2_negative_T_counterexample:
  "1 < length (generateProfile (nominal\<lparr>T := - 1\<rparr>) (1 / 2))
   \<and> solveTheta (nominal\<lparr>T := - 1\<rparr>) (1 / 2)
         (getTargetArea (nominal\<lparr>T := - 1\<rparr>) (l_st (initState (nominal\<lparr>T := - 1\<rparr>)) + 1 / 2))
         (initState (nominal\<lparr>T := - 1\<rparr>))
       = (2 * pi / 2 ^ 50, initState (nominal\<lparr>T := - 1\<rparr>))
   \<and> \<not> isSpiraling (initState (nominal\<lparr>T := - 1\<rparr>))
   \<and> angle (generateProfile (nominal\<lparr>T := - 1\<rparr>) (1 / 2) ! 1) = 360 / 2 ^ 50
   \<and> 2 \<le> 2 * pi * (y (generateProfile (nominal\<lparr>T := - 1\<rparr>) (1 / 2) ! 1))\<^sup>2
             / (1 + cos (angle (generateProfile (nominal\<lparr>T := - 1\<rparr>) (1 / 2) ! 1) * pi / 180))
           - getTargetArea (nominal\<lparr>T := - 1\<rparr>)
               (length_pt (generateProfile (nominal\<lparr>T := - 1\<rparr>) (1 / 2) ! 1))"
proof -
  let ?P = "nominal\<lparr>T := - 1\<rparr>"
  let ?s = "initState ?P"
  let ?S = "getTargetArea ?P (l_st ?s + 1 / 2)"
  define th where "th = pi / 2 ^ 49"
  have i: "y_st ?s = 18" "l_st ?s = 0" "\<not> isSpiraling ?s" "previousAngle ?s = 0"
    "previousDelta ?s = 0"
    by (simp_all add: initState_def nominal_def)
  have nd: "getM ?P \<noteq> 0" "0 < d0 ?P" using nominal_nondeg by (simp_all add: getM_def)
  have S: "?S \<le> 324 * pi - 2" using negT_first_area by (simp add: i)
  then have "?S \<le> pi * (y_st ?s)\<^sup>2" by (simp add: i)
  then have sb: "solveBisection (y_st ?s) (1 / 2) ?S = (0, th, th)"
    unfolding th_def by (intro never_below_result) (simp_all add: i)
  have thp: "0 < th" "th < pi"
  proof -
    show "0 < th" by (simp add: th_def)
    have "pi / 2 ^ 49 < pi / 1" by (intro divide_strict_left_mono) simp_all
    then show "th < pi" by (simp add: th_def)
  qed
  have st: "solveTheta ?P (1 / 2) ?S ?s = (th, ?s)"
    using solveTheta_physical[OF i(3) sb, of ?P] thp by (simp add: i)
  have "pi / 2 ^ 49 < pi / 2" by (intro divide_strict_left_mono) simp_all
  then have "th < (1 / 2) * pi" by (simp add: th_def)
  from deg_less[OF this] have deg: "th * (180 / pi) < roundOver ?P - EPSILON"
    by (simp add: nominal_def EPSILON_def)
  from loopBody_accepts[OF st deg, of 0] i(3) obtain s' where
    c: "loopBody ?P (1 / 2) 0 ?s = Continue s'" by blast
  have "reach ?P (1 / 2) (0 + 1) s'"
    by (rule reach_step[OF reach_init _ c]) (simp add: MAX_STEPS_def)
  then have r: "reach ?P (1 / 2) 1 s'" by simp
  from loopBody_Continue[OF c] st
  have pts: "points s' = points ?s @ [emitted ?P (1 / 2) 0 ?s th]" by simp
  from generateProfile_covers[OF nd r] have len: "1 < length (generateProfile ?P (1 / 2))" .
  from generateProfile_nth[OF nd r len] pts
  have p1: "generateProfile ?P (1 / 2) ! 1 = emitted ?P (1 / 2) 0 ?s th" by simp
  have a: "angle (emitted ?P (1 / 2) 0 ?s th) = 360 / 2 ^ 50"
    by (simp add: emitted_def th_def)
  have ang: "angle (emitted ?P (1 / 2) 0 ?s th) * pi / 180 = th"
    by (simp add: emitted_def)
  have yy: "y (emitted ?P (1 / 2) 0 ?s th) = 18 + 1 / 2 * sin th"
    and ll: "length_pt (emitted ?P (1 / 2) 0 ?s th) = l_st ?s + 1 / 2"
    by (simp_all add: emitted_def i)
  have "pi * 18\<^sup>2 \<le> 2 * pi * (18 + 1 / 2 * sin th)\<^sup>2 / (1 + cos th)"
    by (rule geometry_area_lower[OF thp]) simp_all
  with S have "2 \<le> 2 * pi * (18 + 1 / 2 * sin th)\<^sup>2 / (1 + cos th) - ?S" by simp
  then have gap: "2 \<le> 2 * pi * (y (emitted ?P (1 / 2) 0 ?s th))\<^sup>2
             / (1 + cos (angle (emitted ?P (1 / 2) 0 ?s th) * pi / 180))
           - getTargetArea ?P (length_pt (emitted ?P (1 / 2) 0 ?s th))"
    by (simp only: ang yy ll)
  have "th = 2 * pi / 2 ^ 50" by (simp add: th_def)
  with st have st': "solveTheta ?P (1 / 2) ?S ?s = (2 * pi / 2 ^ 50, ?s)" by simp
  from len st' i(3) a gap show ?thesis unfolding p1 by blast
qed

text \<open>
  Claim C2, amended. In the physical regime each step's angle is the last midpoint of
  exactly 50 bisection iterations over \<open>[0, 2 pi]\<close> that raise the lower bound when the
  geometric area \<open>2 pi (y + stepSize sin theta)\<^sup>2 / (1 + cos theta)\<close> is below \<open>S_target\<close> and
  lower the upper bound otherwise (also at \<open>theta = pi\<close>, where the divisor is zero). The
  final interval \<open>[lo, hi]\<close> has width \<open>2 pi / 2^50\<close>, lies in \<open>[0, pi]\<close> and has the angle as
  one of its ends; the area at \<open>hi\<close> is not below the target; and when the area at
  \<open>theta = 0\<close>, that is \<open>pi y\<^sup>2\<close>, is below the target, the area at \<open>lo\<close> is below it too, so
  that (for \<open>hi < pi\<close>) some angle of the final interval gives exactly the target area. An
  emitted point that stays in the physical regime carries this angle, and its \<open>y\<close> is
  \<open>y + stepSize sin theta\<close>.
\<close>

theorem C2_bisection_bracket:
  assumes "\<not> isSpiraling s"
    and "solveBisection (y_st s) stepSize (getTargetArea p (l_st s + stepSize)) = (lo, hi, thb)"
  shows "solveBisection (y_st s) stepSize (getTargetArea p (l_st s + stepSize))
           = bisect (y_st s) stepSize (getTargetArea p (l_st s + stepSize)) 50 (0, 2 * pi, 0)
       \<and> (\<forall>n a b t. bisect (y_st s) stepSize (getTargetArea p (l_st s + stepSize)) (Suc n) (a, b, t)
             = (if areaBelow (y_st s) stepSize (getTargetArea p (l_st s + stepSize)) ((a + b) / 2)
                then bisect (y_st s) stepSize (getTargetArea p (l_st s + stepSize)) n
                       ((a + b) / 2, b, (a + b) / 2)
                else bisect (y_st s) stepSize (getTargetArea p (l_st s + stepSize)) n
                       (a, (a + b) / 2, (a + b) / 2)))
       \<and> (\<forall>th. 1 + cos th \<noteq> 0 \<longrightarrow>
             areaBelow (y_st s) stepSize (getTargetArea p (l_st s + stepSize)) th
               = (2 * pi * (y_st s + stepSize * sin th)\<^sup>2 / (1 + cos th)
                    < getTargetArea p (l_st s + stepSize)))
       \<and> hi - lo = 2 * pi / 2 ^ 50 \<and> 0 \<le> lo \<and> hi \<le> pi \<and> (thb = lo \<or> thb = hi)
       \<and> \<not> areaBelow (y_st s) stepSize (getTargetArea p (l_st s + stepSize)) hi
       \<and> (pi * (y_st s)\<^sup>2 < getTargetArea p (l_st s + stepSize) \<longrightarrow>
             areaBelow (y_st s) stepSize (getTargetArea p (l_st s + stepSize)) lo)
       \<and> (pi * (y_st s)\<^sup>2 < getTargetArea p (l_st s + stepSize) \<and> hi < pi \<longrightarrow>
             (\<exists>th. lo \<le> th \<and> th \<le> hi
                \<and> 2 * pi * (y_st s + stepSize * sin th)\<^sup>2 / (1 + cos th)
                     = getTargetArea p (l_st s + stepSize)))
       \<and> (\<forall>s'. loopBody p stepSize i s = Continue s' \<and> \<not> isSpiraling s' \<longrightarrow>
             previousAngle s' = thb \<and> angle (last (points s')) = thb * (180 / pi)
             \<and> y (last (points s')) = y_st s + stepSize * sin thb)"
proof -
  let ?S = "getTargetArea p (l_st s + stepSize)"
  note inv = solveBisection_inv[OF assms(2)]
  have lo: "areaBelow (y_st s) stepSize ?S lo" if "pi * (y_st s)\<^sup>2 < ?S"
    using inv that by (auto simp: areaBelow_zero)
  have root: "\<exists>th. lo \<le> th \<and> th \<le> hi
                \<and> 2 * pi * (y_st s + stepSize * sin th)\<^sup>2 / (1 + cos th) = ?S"
    if "pi * (y_st s)\<^sup>2 < ?S \<and> hi < pi"
  proof (rule geometry_area_crossing)
    show "0 \<le> lo" "lo \<le> hi" "\<not> areaBelow (y_st s) stepSize ?S hi" using inv by simp_all
    show "hi < pi" using that by simp
    show "areaBelow (y_st s) stepSize ?S lo" using lo that by simp
  qed
  have em: "previousAngle s' = thb \<and> angle (last (points s')) = thb * (180 / pi)
             \<and> y (last (points s')) = y_st s + stepSize * sin thb"
    if c: "loopBody p stepSize i s = Continue s' \<and> \<not> isSpiraling s'" for s'
  proof -
    from c loopBody_Continue[of p stepSize i s s'] obtain th s1 where
      t: "solveTheta p stepSize ?S s = (th, s1)" "previousAngle s' = th"
         "isSpiraling s' = isSpiraling s1" "points s' = points s @ [emitted p stepSize i s th]"
      by blast
    from solveTheta_physical[OF assms(1,2), of p] t(1,3) c have "th = thb"
      by (auto split: if_splits)
    with t show ?thesis by (simp add: emitted_def)
  qed
  have r: "\<forall>n a b t. bisect (y_st s) stepSize ?S (Suc n) (a, b, t)
             = (if areaBelow (y_st s) stepSize ?S ((a + b) / 2)
                then bisect (y_st s) stepSize ?S n ((a + b) / 2, b, (a + b) / 2)
                else bisect (y_st s) stepSize ?S n (a, (a + b) / 2, (a + b) / 2))"
    by (simp add: Let_def)
  have a: "\<forall>th. 1 + cos th \<noteq> 0 \<longrightarrow>
             areaBelow (y_st s) stepSize ?S th
               = (2 * pi * (y_st s + stepSize * sin th)\<^sup>2 / (1 + cos th) < ?S)"
    by (simp add: areaBelow_iff)
  from inv lo root em r a show ?thesis
    unfolding solveBisection_def by blast
qed

theorem C2_bisection_bracket_witness:
  "\<exists>lo hi thb s'.
      \<not> isSpiraling (initState nominal)
      \<and> solveBisection (y_st (initState nominal)) (1 / 2)
            (getTargetArea nominal (l_st (initState nominal) + 1 / 2)) = (lo, hi, thb)
      \<and> pi * (y_st (initState nominal))\<^sup>2 < getTargetArea nominal (l_st (initState nominal) + 1 / 2)
      \<and> hi < pi
      \<and> loopBody nominal (1 / 2) 0 (initState nominal) = Continue s' \<and> \<not> isSpiraling s'
      \<and> hi - lo = 2 * pi / 2 ^ 50 \<and> (thb = lo \<or> thb = hi)
      \<and> (\<exists>th. lo \<le> th \<and> th \<le> hi
             \<and> 2 * pi * (y_st (initState nominal) + 1 / 2 * sin th)\<^sup>2 / (1 + cos th)
                  = getTargetArea nominal (l_st (initState nominal) + 1 / 2))
      \<and> previousAngle s' = thb
      \<and> y (last (points s')) = y_st (initState nominal) + 1 / 2 * sin thb"
proof -
  let ?s = "initState nominal"
  let ?S = "getTargetArea nominal (l_st ?s + 1 / 2)"
  have S: "324 * pi < ?S" "?S \<le> 330 * pi"
    using nominal_first_area by (simp_all add: nominal_init)
  obtain lo hi thb where sb: "solveBisection (y_st ?s) (1 / 2) ?S = (lo, hi, thb)"
    by (cases "solveBisection (y_st ?s) (1 / 2) ?S")
  have below0: "pi * (y_st ?s)\<^sup>2 < ?S" using S(1) by (simp add: nominal_init)
  have "2 * pi * (18 + 1 / 2) * (18 + 1 / 2) = (1369 / 2) * pi" by simp
  with S(2) have "\<not> 2 * pi * (18 + 1 / 2) * (18 + 1 / 2) < ?S"
    using pi_gt_zero by linarith
  then have "\<not> areaBelow (y_st ?s) (1 / 2) ?S (pi / 2)"
    by (simp add: areaBelow_half nominal_init)
  from bisect_above_half[OF this sb] have th: "0 < thb" "thb < pi / 2" "hi \<le> pi / 2" by simp_all
  then have hi: "hi < pi" using pi_gt_zero by linarith
  note ns = nominal_init(3)
  have st: "solveTheta nominal (1 / 2) ?S ?s = (thb, ?s)"
    using solveTheta_physical[OF ns sb, of nominal] th by (simp add: nominal_init)
  have "thb < (1 / 2) * pi" using th(2) by simp
  from deg_less[OF this] have deg: "thb * (180 / pi) < roundOver nominal - EPSILON"
    by (simp add: nominal_def EPSILON_def)
  from loopBody_accepts[OF st deg, of 0] ns obtain s' where
    c: "loopBody nominal (1 / 2) 0 ?s = Continue s'" by blast
  from loopBody_Continue[OF c] st ns have ns': "\<not> isSpiraling s'" by simp
  note c2 = C2_bisection_bracket[OF ns sb, of 0]
  from c2 have w: "hi - lo = 2 * pi / 2 ^ 50" "thb = lo \<or> thb = hi" by blast+
  from c2 below0 hi have r: "\<exists>th. lo \<le> th \<and> th \<le> hi
             \<and> 2 * pi * (y_st ?s + 1 / 2 * sin th)\<^sup>2 / (1 + cos th) = ?S" by blast
  from c2 c ns' have e: "previousAngle s' = thb"
    "y (last (points s')) = y_st ?s + 1 / 2 * sin thb" by blast+
  from ns sb below0 hi c ns' w r e show ?thesis by blast
qed

text \<open>
  Claim C3. In the spiral regime the angle increment of the \<open>n\<close>-th step counted from the
  transition step (\<open>n = 0\<close>) is \<open>baseIncrement * 1.005 ^ n\<close>, where the base increment is
  the previous (peak) increment captured at the transition: each spiral step's angle is
  \<open>previousAngle\<close> plus that compounded increment. Here \<open>u\<close> is the state entering the
  transition iteration \<open>k\<close> and \<open>s\<close> the state entering iteration \<open>k + n\<close>.
\<close>

theorem C3_spiral_increment:
  assumes "reach p stepSize k u" and "\<not> isSpiraling u"
    and "solveTheta p stepSize (getTargetArea p (l_st u + stepSize)) u = (th0, u1)"
    and "isSpiraling u1"
    and "reach p stepSize (k + n) s"
  shows "fst (solveTheta p stepSize (getTargetArea p (l_st s + stepSize)) s)
           = previousAngle s + previousDelta u * 1.005 ^ n
       \<and> baseDeltaTheta u1 = previousDelta u
       \<and> (k + n + 1 < length (generateProfile p stepSize) \<longrightarrow>
            deltaAngle (generateProfile p stepSize ! (k + n + 1))
              = previousDelta u * 1.005 ^ n * (180 / pi))"
proof -
  obtain lo hi thb where
    sb: "solveBisection (y_st u) stepSize (getTargetArea p (l_st u + stepSize)) = (lo, hi, thb)"
    by (cases "solveBisection (y_st u) stepSize (getTargetArea p (l_st u + stepSize))")
  from solveTheta_physical[OF assms(2) sb, of p] assms(2,3,4)
  have tr: "th0 = previousAngle u + previousDelta u"
    "u1 = u\<lparr>isSpiraling := True, baseDeltaTheta := previousDelta u\<rparr>"
    by (auto split: if_splits)
  have th: "fst (solveTheta p stepSize (getTargetArea p (l_st s + stepSize)) s)
              = previousAngle s + previousDelta u * 1.005 ^ n"
  proof (cases n)
    case 0
    with assms(5) reach_det[OF assms(1), of s] have "s = u" by simp
    with assms(3) tr(1) 0 show ?thesis by simp
  next
    case (Suc n')
    with assms(5) have "reach p stepSize (k + Suc n') s" by simp
    from after_transition[OF assms(1-4) this] solveTheta_spiral[of s p stepSize] Suc
    show ?thesis by (simp add: growthRate_def)
  qed
  have em: "deltaAngle (generateProfile p stepSize ! (k + n + 1))
              = previousDelta u * 1.005 ^ n * (180 / pi)"
    if l: "k + n + 1 < length (generateProfile p stepSize)"
  proof -
    from profile_step[OF l] obtain v th s1 where
      v: "reach p stepSize (k + n) v"
         "solveTheta p stepSize (getTargetArea p (l_st v + stepSize)) v = (th, s1)"
         "generateProfile p stepSize ! (k + n + 1) = emitted p stepSize (k + n) v th" by blast
    from reach_det[OF v(1) assms(5)] have "v = s" .
    with v(2) th have "th - previousAngle s = previousDelta u * 1.005 ^ n" by simp
    with v(3) \<open>v = s\<close> show ?thesis by (simp add: emitted_def)
  qed
  from th tr(2) em show ?thesis by simp
qed

theorem C3_spiral_increment_witness:
  "\<exists>u th0 u1 s. reach deepRollback 40 1 u \<and> \<not> isSpiraling u
      \<and> solveTheta deepRollback 40 (getTargetArea deepRollback (l_st u + 40)) u = (th0, u1)
      \<and> isSpiraling u1 \<and> reach deepRollback 40 (1 + 1) s
      \<and> 1 + 1 + 1 < length (generateProfile deepRollback 40)
      \<and> fst (solveTheta deepRollback 40 (getTargetArea deepRollback (l_st s + 40)) s)
           = previousAngle s + previousDelta u * 1.005 ^ 1
      \<and> deltaAngle (generateProfile deepRollback 40 ! (1 + 1 + 1))
           = previousDelta u * 1.005 ^ 1 * (180 / pi)"
proof -
  from deepRollback_step1 obtain u1 u2 th0 s1 where
    a: "reach deepRollback 40 1 u1" "\<not> isSpiraling u1"
       "solveTheta deepRollback 40 (getTargetArea deepRollback (l_st u1 + 40)) u1
          = (previousAngle u1 + th0, s1)"
       "isSpiraling s1" "reach deepRollback 40 2 u2" by blast
  from a(5) have r2: "reach deepRollback 40 (1 + 1) u2" by (simp only: one_add_one)
  from deepRollback_step2 obtain u3 where "reach deepRollback 40 3 u3" by blast
  from generateProfile_covers[OF deepRollback_nondeg this]
  have l: "1 + 1 + 1 < length (generateProfile deepRollback 40)" by simp
  from C3_spiral_increment[OF a(1-4) r2] l a(1-4) r2 show ?thesis by blast
qed

text \<open>
  Claim C4. The solver leaves the physical regime exactly when the bisection result is
  beyond 90 degrees, its increment is strictly smaller than the previous step's
  increment, and \<open>roundOver > 100\<close>; at that step the angle is recomputed as
  \<open>previousAngle + previousDelta\<close> and that increment becomes the spiral base; an accepted
  step hands the regime its angle solve has set to the next iteration; from then on
  every state of the run is in the spiral regime, whose angle is computed without the
  bisection.
\<close>

theorem C4_transition:
  assumes "reach p stepSize i s"
    and "solveTheta p stepSize (getTargetArea p (l_st s + stepSize)) s = (theta, s1)"
    and "snd (snd (solveBisection (y_st s) stepSize (getTargetArea p (l_st s + stepSize)))) = thb"
  shows "(\<not> isSpiraling s \<longrightarrow>
            (isSpiraling s1 \<longleftrightarrow>
               90 < thb * (180 / pi) \<and> thb - previousAngle s < previousDelta s \<and> 100 < roundOver p)
          \<and> (isSpiraling s1 \<longrightarrow>
               theta = previousAngle s + previousDelta s \<and> baseDeltaTheta s1 = previousDelta s)
          \<and> (\<not> isSpiraling s1 \<longrightarrow> theta = thb)
          \<and> (\<forall>u. 1 \<le> i \<and> reach p stepSize (i - 1) u
                \<longrightarrow> previousDelta s = previousAngle s - previousAngle u))
       \<and> (isSpiraling s \<longrightarrow>
            isSpiraling s1
          \<and> theta = previousAngle s + baseDeltaTheta s * 1.005 ^ (spiralStepCount s + 1)
          \<and> (\<forall>j t. reach p stepSize (i + j) t \<longrightarrow> isSpiraling t))
       \<and> (\<forall>s'. loopBody p stepSize i s = Continue s' \<longrightarrow> isSpiraling s' = isSpiraling s1)"
proof -
  have next_head: "\<forall>s'. loopBody p stepSize i s = Continue s' \<longrightarrow> isSpiraling s' = isSpiraling s1"
  proof (intro allI impI)
    fix s'
    assume "loopBody p stepSize i s = Continue s'"
    from loopBody_Continue[OF this] assms(2) show "isSpiraling s' = isSpiraling s1" by auto
  qed
  have phys: "(isSpiraling s1 \<longleftrightarrow>
               90 < thb * (180 / pi) \<and> thb - previousAngle s < previousDelta s \<and> 100 < roundOver p)
          \<and> (isSpiraling s1 \<longrightarrow>
               theta = previousAngle s + previousDelta s \<and> baseDeltaTheta s1 = previousDelta s)
          \<and> (\<not> isSpiraling s1 \<longrightarrow> theta = thb)
          \<and> (\<forall>u. 1 \<le> i \<and> reach p stepSize (i - 1) u
                \<longrightarrow> previousDelta s = previousAngle s - previousAngle u)"
    if ns: "\<not> isSpiraling s"
  proof -
    obtain lo hi where
      sb: "solveBisection (y_st s) stepSize (getTargetArea p (l_st s + stepSize)) = (lo, hi, thb)"
      using assms(3)
      by (cases "solveBisection (y_st s) stepSize (getTargetArea p (l_st s + stepSize))") auto
    note ph = solveTheta_physical[OF ns sb, of p]
    show ?thesis
    proof (cases "thb - previousAngle s < previousDelta s \<and> 90 < thb * (180 / pi) \<and> 100 < roundOver p")
      case True
      with ph assms(2) have "theta = previousAngle s + previousDelta s"
        "s1 = s\<lparr>isSpiraling := True, baseDeltaTheta := previousDelta s\<rparr>" by simp_all
      with True reach_physical_delta[OF assms(1) ns] show ?thesis by simp
    next
      case False
      with ph assms(2) have "theta = thb" "s1 = s" by auto
      with False ns reach_physical_delta[OF assms(1) ns] show ?thesis by auto
    qed
  qed
  have spir: "isSpiraling s1
          \<and> theta = previousAngle s + baseDeltaTheta s * 1.005 ^ (spiralStepCount s + 1)
          \<and> (\<forall>j t. reach p stepSize (i + j) t \<longrightarrow> isSpiraling t)"
    if sp: "isSpiraling s"
  proof -
    from solveTheta_spiral[OF sp, of p stepSize] assms(2) sp
    have "isSpiraling s1"
      "theta = previousAngle s + baseDeltaTheta s * 1.005 ^ (spiralStepCount s + 1)"
      by (auto simp: growthRate_def)
    moreover have "\<forall>j t. reach p stepSize (i + j) t \<longrightarrow> isSpiraling t"
      using reach_spiral_mono[OF _ assms(1) sp] by simp
    ultimately show ?thesis by simp
  qed
  from phys spir next_head show ?thesis by blast
qed

theorem C4_transition_witness:
  "\<exists>u theta s1 s theta' s1' t.
      reach deepRollback 40 1 u \<and> \<not> isSpiraling u
      \<and> solveTheta deepRollback 40 (getTargetArea deepRollback (l_st u + 40)) u = (theta, s1)
      \<and> isSpiraling s1
      \<and> 90 < snd (snd (solveBisection (y_st u) 40 (getTargetArea deepRollback (l_st u + 40)))) * (180 / pi)
      \<and> theta = previousAngle u + previousDelta u
      \<and> loopBody deepRollback 40 1 u = Continue s
      \<and> reach deepRollback 40 2 s \<and> isSpiraling s
      \<and> solveTheta deepRollback 40 (getTargetArea deepRollback (l_st s + 40)) s = (theta', s1')
      \<and> isSpiraling s1'
      \<and> reach deepRollback 40 (2 + 1) t \<and> isSpiraling t"
proof -
  from deepRollback_step1 obtain u1 u2 th0 s1 where
    a: "reach deepRollback 40 1 u1" "\<not> isSpiraling u1"
       "solveTheta deepRollback 40 (getTargetArea deepRollback (l_st u1 + 40)) u1
          = (previousAngle u1 + th0, s1)"
       "isSpiraling s1"
    and b: "reach deepRollback 40 2 u2" "loopBody deepRollback 40 1 u1 = Continue u2" by blast
  from deepRollback_step2 obtain u3 where b3: "reach deepRollback 40 3 u3" by blast
  obtain th' s1' where
    c: "solveTheta deepRollback 40 (getTargetArea deepRollback (l_st u2 + 40)) u2 = (th', s1')"
    by (cases "solveTheta deepRollback 40 (getTargetArea deepRollback (l_st u2 + 40)) u2")
  have "(2::nat) + 1 = 3" by simp
  with b3 have r3: "reach deepRollback 40 (2 + 1) u3" by (simp only:)
  note c4 = C4_transition[OF a(1) a(3) refl]
  from c4 a(2,4)
  have t1: "90 < snd (snd (solveBisection (y_st u1) 40 (getTargetArea deepRollback (l_st u1 + 40)))) * (180 / pi)"
    "previousAngle u1 + th0 = previousAngle u1 + previousDelta u1" by simp_all
  from c4 b(2) a(4) have sp2: "isSpiraling u2" by blast
  from C4_transition[OF b(1) c refl] sp2 r3
  have t2: "isSpiraling s1'" "isSpiraling u3" by blast+
  from a t1 b sp2 c t2 r3 show ?thesis by blast
qed

text \<open>
  Claim C5. Every point after the seed has an angle (in degrees) strictly below
  \<open>roundOver - 0.005\<close>; every point emitted in the spiral regime, the transition step
  included, has \<open>y > 0\<close>; the step whose angle reaches \<open>roundOver - 0.005\<close>, or whose next
  spiral radius would be \<open>\<le> 0\<close>, is not emitted: the result is the seed and every accepted
  step before the one that stopped the loop.
\<close>

theorem C5_stop_conditions:
  assumes "getM p \<noteq> 0" and "0 < d0 p"
  shows "(\<forall>k. 1 \<le> k \<and> k < length (generateProfile p stepSize)
            \<longrightarrow> angle (generateProfile p stepSize ! k) < roundOver p - 0.005)
       \<and> (\<forall>k s. reach p stepSize k s \<and> isSpiraling s
            \<longrightarrow> k < length (generateProfile p stepSize)
                \<and> y (generateProfile p stepSize ! k) = y_st s
                \<and> 0 < y (generateProfile p stepSize ! k))
       \<and> (\<exists>j t. reach p stepSize j t \<and> generateProfile p stepSize = points t
            \<and> length (generateProfile p stepSize) = j + 1
            \<and> (j = 20000
               \<or> (\<exists>t' theta s1. loopBody p stepSize j t = Break t'
                     \<and> solveTheta p stepSize (getTargetArea p (l_st t + stepSize)) t = (theta, s1)
                     \<and> (roundOver p - 0.005 \<le> theta * (180 / pi)
                        \<or> (isSpiraling s1 \<and> y_st t + stepSize * sin theta \<le> 0)))))"
proof (intro conjI allI impI)
  fix k
  assume k: "1 \<le> k \<and> k < length (generateProfile p stepSize)"
  then have "(k - 1) + 1 < length (generateProfile p stepSize)" "k - 1 + 1 = k" by simp_all
  from profile_step[OF this(1)] this(2) obtain u th where
    "th * (180 / pi) < roundOver p - EPSILON"
    "generateProfile p stepSize ! k = emitted p stepSize (k - 1) u th" by auto
  then show "angle (generateProfile p stepSize ! k) < roundOver p - 0.005"
    by (simp add: emitted_def EPSILON_def)
next
  fix k s
  assume a: "reach p stepSize k s \<and> isSpiraling s"
  then have r: "reach p stepSize k s" and sp: "isSpiraling s" by simp_all
  from generateProfile_covers[OF assms r]
  show kl: "k < length (generateProfile p stepSize)" .
  from generateProfile_nth[OF assms r kl] reach_points[OF r]
  show yy: "y (generateProfile p stepSize ! k) = y_st s" by simp
  from reach_spiral_positive[OF r sp] yy
  show "0 < y (generateProfile p stepSize ! k)" by simp
next
  from generateProfile_final[OF assms, of stepSize] obtain j t where
    jt: "reach p stepSize j t" "generateProfile p stepSize = points t"
        "j = MAX_STEPS \<or> (j < MAX_STEPS \<and> (\<exists>t'. loopBody p stepSize j t = Break t'))" by blast
  from reach_points[OF jt(1)] jt(2) have len: "length (generateProfile p stepSize) = j + 1" by simp
  have "j = 20000
        \<or> (\<exists>t' theta s1. loopBody p stepSize j t = Break t'
              \<and> solveTheta p stepSize (getTargetArea p (l_st t + stepSize)) t = (theta, s1)
              \<and> (roundOver p - 0.005 \<le> theta * (180 / pi)
                 \<or> (isSpiraling s1 \<and> y_st t + stepSize * sin theta \<le> 0)))"
  proof (cases "j = MAX_STEPS")
    case True
    then show ?thesis by (simp add: MAX_STEPS_def)
  next
    case False
    with jt(3) obtain t' where b: "loopBody p stepSize j t = Break t'" by blast
    from loopBody_Break_cond[OF b] b show ?thesis
      by (auto simp: EPSILON_def)
  qed
  with jt(1,2) len
  show "\<exists>j t. reach p stepSize j t \<and> generateProfile p stepSize = points t
            \<and> length (generateProfile p stepSize) = j + 1
            \<and> (j = 20000
               \<or> (\<exists>t' theta s1. loopBody p stepSize j t = Break t'
                     \<and> solveTheta p stepSize (getTargetArea p (l_st t + stepSize)) t = (theta, s1)
                     \<and> (roundOver p - 0.005 \<le> theta * (180 / pi)
                        \<or> (isSpiraling s1 \<and> y_st t + stepSize * sin theta \<le> 0))))"
    by blast
qed

theorem C5_stop_conditions_witness:
  "getM deepRollback \<noteq> 0 \<and> 0 < d0 deepRollback
   \<and> (1::nat) \<le> 1 \<and> 1 < length (generateProfile deepRollback 40)
   \<and> angle (generateProfile deepRollback 40 ! 1) < roundOver deepRollback - 0.005
   \<and> (\<exists>s. reach deepRollback 40 2 s \<and> isSpiraling s)
   \<and> 2 < length (generateProfile deepRollback 40)
   \<and> 0 < y (generateProfile deepRollback 40 ! 2)"
proof -
  from deepRollback_step2 obtain u2 u3 where
    u: "reach deepRollback 40 2 u2" "isSpiraling u2" "reach deepRollback 40 3 u3" by blast
  note c5 = C5_stop_conditions[OF deepRollback_nondeg, of 40]
  from generateProfile_covers[OF deepRollback_nondeg u(3)]
  have l: "1 < length (generateProfile deepRollback 40)" by simp
  from c5 l have a: "angle (generateProfile deepRollback 40 ! 1) < roundOver deepRollback - 0.005"
    by simp
  from c5 u(1,2) have b: "2 < length (generateProfile deepRollback 40)
     \<and> 0 < y (generateProfile deepRollback 40 ! 2)" by blast
  from deepRollback_nondeg l a b u(1,2) show ?thesis by blast
qed

text \<open>
  Claim C6. \<open>generateProfile\<close> terminates for every parameter record and step size (it is a
  total function, by the termination proof of \<open>stepLoop\<close>): the loop runs at most 20000
  iterations, so the result has at most 20001 points.
\<close>

theorem C6_step_cap:
  "length (generateProfile p stepSize) \<le> 20001
   \<and> (\<forall>i s. reach p stepSize i s \<longrightarrow> i \<le> 20000)"
proof (intro conjI allI impI)
  show "length (generateProfile p stepSize) \<le> 20001"
  proof (cases "getM p = 0 \<or> d0 p \<le> 0")
    case True
    then show ?thesis by (simp add: generateProfile_def)
  next
    case False
    then have nd: "getM p \<noteq> 0" "0 < d0 p" by simp_all
    from generateProfile_final[OF nd, of stepSize] obtain j t where
      jt: "reach p stepSize j t" "generateProfile p stepSize = points t" by blast
    from reach_points[OF jt(1)] reach_le[OF jt(1)] jt(2) show ?thesis
      by (simp add: MAX_STEPS_def)
  qed
next
  fix i s
  assume "reach p stepSize i s"
  from reach_le[OF this] show "i \<le> 20000" by (simp add: MAX_STEPS_def)
qed

theorem C6_step_cap_witness:
  "(\<exists>s. reach deepRollback 40 3 s) \<and> (3::nat) \<le> 20000
   \<and> length (generateProfile deepRollback 40) \<le> 20001"
proof -
  from deepRollback_step2 obtain u3 where u: "reach deepRollback 40 3 u3" by blast
  from C6_step_cap[of deepRollback 40] u show ?thesis by blast
qed




text \<open>
  Claim C8. For \<open>m \<noteq> 0\<close> and \<open>d0 > 0\<close>, and any step size, the first element of the result
  has index 0, \<open>x = 0\<close>, \<open>y = d0 / 2\<close>, length 0, angle 0, deltaAngle 0 and radius \<open>d0 / 2\<close>.
\<close>

theorem C8_seed_point:
  assumes "getM p \<noteq> 0" and "0 < d0 p"
  shows "generateProfile p stepSize \<noteq> []
       \<and> generateProfile p stepSize ! 0
           = \<lparr>index = 0, x = 0, y = d0 p / 2, length_pt = 0, radius = d0 p / 2,
              angle = 0, deltaAngle = 0\<rparr>"
proof -
  from generateProfile_final[OF assms, of stepSize] obtain j t where
    jt: "reach p stepSize j t" "generateProfile p stepSize = points t" by blast
  from reach_points[OF jt(1)] jt(2) show ?thesis
    by (auto simp: seedPoint_def)
qed

theorem C8_seed_point_witness:
  "getM nominal \<noteq> 0 \<and> 0 < d0 nominal
   \<and> generateProfile nominal 0.5 ! 0
       = \<lparr>index = 0, x = 0, y = 18, length_pt = 0, radius = 18, angle = 0, deltaAngle = 0\<rparr>"
proof -
  have nd: "getM nominal \<noteq> 0" "0 < d0 nominal"
    by (simp_all add: nominal_def getM_def C_SOUND_def)
  from C8_seed_point[OF nd, of "0.5"] nd show ?thesis
    by (simp add: nominal_def)
qed

text \<open>
  Claim C9 says that for every point sequence each row holds \<open>x / 10\<close> and \<open>y / 10\<close>
  formatted to 4 decimal places. \<^verbatim>\<open>toFixed\<close> prints a magnitude of \<open>10^21\<close> or more in
  exponent notation: the point with \<open>x = 10^22\<close> and \<open>y = 0\<close> gives the row
  \<open>1e+21,0.0000,0.0000\<close>.
\<close>

theorem C9_exponent_counterexample:
  "generateCSV [\<lparr>index = 0, x = 10 ^ 22, y = 0, length_pt = 0, radius = 0, angle = 0,
                  deltaAngle = 0\<rparr>]
     = ''X (cm),Y (cm),Z (cm)'' @ [CHR 0x0A] @ ''1e+21,0.0000,0.0000'' @ [CHR 0x0A]"
  by (simp add: generateCSV_def toFixed_1e21 toFixed_zero)

text \<open>
  Claim C9, amended. For every point sequence, the empty one included, \<open>generateCSV\<close>
  returns the header line \<open>X (cm),Y (cm),Z (cm)\<close> followed, in sequence order, by one
  newline-terminated row per point: \<^verbatim>\<open>toFixed(4)\<close> of the double quotients \<open>x / 10\<close> and
  \<open>y / 10\<close>, and a constant third column \<open>0.0000\<close>. The double quotient is within a relative
  \<open>2^(-53)\<close> of the exact one. A quotient of magnitude below \<open>10^21\<close> is printed with 4
  decimal places: an optional minus sign and the digits of the integer nearest to
  \<open>|q| * 10^4\<close> (the larger one on a tie), with a point before the last four. A point with
  \<open>x = 36\<close> and \<open>y = 18\<close> gives the row \<open>3.6000,1.8000,0.0000\<close>; since it is the double
  quotient that is printed, \<open>y = 0.1875\<close> gives \<open>0.0187\<close>.
\<close>

theorem C9_generateCSV:
  "generateCSV ps
     = ''X (cm),Y (cm),Z (cm)'' @ [CHR 0x0A]
       @ concat (map (\<lambda>p. toFixed 4 (divDouble (x p) 10) @ '',''
                           @ toFixed 4 (divDouble (y p) 10) @ '',0.0000'' @ [CHR 0x0A]) ps)
   \<and> generateCSV [] = ''X (cm),Y (cm),Z (cm)'' @ [CHR 0x0A]
   \<and> (\<forall>v. pow2 (- 1022) \<le> \<bar>v / 10\<bar> \<longrightarrow> \<bar>divDouble v 10 - v / 10\<bar> \<le> \<bar>v / 10\<bar> / 2 ^ 53)
   \<and> (\<forall>q. \<bar>q\<bar> < 10 ^ 21 \<longrightarrow>
         (\<exists>ip fp. toFixed 4 q = (if q < 0 then ''-'' else '''') @ ip @ ''.'' @ fp
            \<and> length fp = 4 \<and> ip \<noteq> [] \<and> set (ip @ fp) \<subseteq> set ''0123456789''
            \<and> valueOf (ip @ fp) = nat \<lfloor>\<bar>q\<bar> * 10 ^ 4 + 1 / 2\<rfloor>))
   \<and> (x p = 36 \<and> y p = 18 \<longrightarrow>
         generateCSV [p]
           = ''X (cm),Y (cm),Z (cm)'' @ [CHR 0x0A] @ ''3.6000,1.8000,0.0000'' @ [CHR 0x0A])
   \<and> (x p = 0 \<and> y p = 1875 / 10000 \<longrightarrow>
         generateCSV [p]
           = ''X (cm),Y (cm),Z (cm)'' @ [CHR 0x0A] @ ''0.0000,0.0187,0.0000'' @ [CHR 0x0A])"
proof -
  have rows: "generateCSV qs
     = ''X (cm),Y (cm),Z (cm)'' @ [CHR 0x0A]
       @ concat (map (\<lambda>p. toFixed 4 (divDouble (x p) 10) @ '',''
                           @ toFixed 4 (divDouble (y p) 10) @ '',0.0000'' @ [CHR 0x0A]) qs)"
    for qs
    unfolding generateCSV_def by (simp only: foldl_append_rows append_assoc)
  have err: "\<forall>v. pow2 (- 1022) \<le> \<bar>v / 10\<bar> \<longrightarrow> \<bar>divDouble v 10 - v / 10\<bar> \<le> \<bar>v / 10\<bar> / 2 ^ 53"
    unfolding divDouble_def using roundToDouble_error by blast
  have shape: "\<forall>q. \<bar>q\<bar> < 10 ^ 21 \<longrightarrow>
         (\<exists>ip fp. toFixed 4 q = (if q < 0 then ''-'' else '''') @ ip @ ''.'' @ fp
            \<and> length fp = 4 \<and> ip \<noteq> [] \<and> set (ip @ fp) \<subseteq> set ''0123456789''
            \<and> valueOf (ip @ fp) = nat \<lfloor>\<bar>q\<bar> * 10 ^ 4 + 1 / 2\<rfloor>)"
    using toFixed_shape[of _ 4] by simp
  have ex: "generateCSV [p]
           = ''X (cm),Y (cm),Z (cm)'' @ [CHR 0x0A] @ ''3.6000,1.8000,0.0000'' @ [CHR 0x0A]"
    if "x p = 36 \<and> y p = 18"
    using that by (simp add: rows toFixed_36 toFixed_18)
  have tie: "generateCSV [p]
           = ''X (cm),Y (cm),Z (cm)'' @ [CHR 0x0A] @ ''0.0000,0.0187,0.0000'' @ [CHR 0x0A]"
    if "x p = 0 \<and> y p = 1875 / 10000"
  proof -
    from that have "y p = 1875 / 10000" by blast
    then have "toFixed 4 (divDouble (y p) 10) = ''0.0187''" by (simp only: toFixed_tie)
    moreover from that have "toFixed 4 (divDouble (x p) 10) = ''0.0000''"
      by (simp add: toFixed_zero)
    ultimately show ?thesis by (simp add: rows)
  qed
  from rows[of ps] rows[of "[]"] err shape ex tie show ?thesis by simp
qed

theorem C9_generateCSV_witness:
  "pow2 (- 1022) \<le> \<bar>36 / 10 :: real\<bar>
   \<and> \<bar>divDouble 36 10 - 36 / 10\<bar> \<le> \<bar>36 / 10\<bar> / 2 ^ 53
   \<and> \<bar>divDouble 36 10\<bar> < 10 ^ 21
   \<and> (\<exists>ip fp. toFixed 4 (divDouble 36 10) = ip @ ''.'' @ fp \<and> length fp = 4
         \<and> valueOf (ip @ fp) = 36000)
   \<and> x (seedPoint nominal\<lparr>x := 36\<rparr>) = 36 \<and> y (seedPoint nominal\<lparr>x := 36\<rparr>) = 18
   \<and> generateCSV [seedPoint nominal\<lparr>x := 36\<rparr>]
       = ''X (cm),Y (cm),Z (cm)'' @ [CHR 0x0A] @ ''3.6000,1.8000,0.0000'' @ [CHR 0x0A]
   \<and> x (seedPoint nominal\<lparr>y := 1875 / 10000\<rparr>) = 0
   \<and> y (seedPoint nominal\<lparr>y := 1875 / 10000\<rparr>) = 1875 / 10000
   \<and> generateCSV [seedPoint nominal\<lparr>y := 1875 / 10000\<rparr>]
       = ''X (cm),Y (cm),Z (cm)'' @ [CHR 0x0A] @ ''0.0000,0.0187,0.0000'' @ [CHR 0x0A]"
proof -
  let ?p = "seedPoint nominal\<lparr>x := 36\<rparr>"
  let ?t = "seedPoint nominal\<lparr>y := 1875 / 10000\<rparr>"
  have q: "divDouble 36 10 = 8106479329266893 / 2 ^ 51"
    by (simp only: divDouble_def roundToDouble_36)
  have h: "pow2 (- 1022) \<le> \<bar>36 / 10 :: real\<bar>" "\<bar>divDouble 36 10\<bar> < 10 ^ 21"
    by (simp_all add: pow2_def q)
  have hp: "x ?p = 36" "y ?p = 18" "x ?t = 0" "y ?t = 1875 / 10000"
    by (simp_all add: seedPoint_def nominal_def)
  note a = C9_generateCSV[of "[?p]" ?p]
  note b = C9_generateCSV[of "[?t]" ?t]
  from a h(1) have e: "\<bar>divDouble 36 10 - 36 / 10\<bar> \<le> \<bar>36 / 10\<bar> / 2 ^ 53" by blast
  from a h(2) obtain ip fp where
    "toFixed 4 (divDouble 36 10)
       = (if divDouble 36 10 < 0 then ''-'' else '''') @ ip @ ''.'' @ fp"
    "length fp = 4"
    "valueOf (ip @ fp) = nat \<lfloor>\<bar>divDouble 36 10\<bar> * 10 ^ 4 + 1 / 2\<rfloor>"
    by blast
  then have "toFixed 4 (divDouble 36 10) = ip @ ''.'' @ fp" "length fp = 4"
    "valueOf (ip @ fp) = 36000"
    by (simp_all add: q)
  then have s: "\<exists>ip fp. toFixed 4 (divDouble 36 10) = ip @ ''.'' @ fp \<and> length fp = 4
         \<and> valueOf (ip @ fp) = 36000"
    by blast
  from a hp(1,2) have r: "generateCSV [?p]
       = ''X (cm),Y (cm),Z (cm)'' @ [CHR 0x0A] @ ''3.6000,1.8000,0.0000'' @ [CHR 0x0A]"
    by blast
  from b hp(3,4) have t: "generateCSV [?t]
       = ''X (cm),Y (cm),Z (cm)'' @ [CHR 0x0A] @ ''0.0000,0.0187,0.0000'' @ [CHR 0x0A]"
    by blast
  from h e s hp r t show ?thesis by blast
qed

text \<open>
  Claim C10. For \<open>m \<noteq> 0\<close>, \<open>d0 > 0\<close> and \<open>roundOver \<le> 0.005\<close> the result is exactly the
  one-element sequence of the seed point: the first bisection angle is strictly
  positive, so the first step already meets the rollback stop condition.
\<close>

theorem C10_small_rollback:
  assumes "getM p \<noteq> 0" and "0 < d0 p" and "roundOver p \<le> 0.005"
  shows "0 < snd (snd (solveBisection (d0 p / 2) stepSize (getTargetArea p (0 + stepSize))))
       \<and> generateProfile p stepSize
           = [\<lparr>index = 0, x = 0, y = d0 p / 2, length_pt = 0, radius = d0 p / 2,
               angle = 0, deltaAngle = 0\<rparr>]"
proof -
  let ?s = "initState p"
  let ?S = "getTargetArea p (l_st ?s + stepSize)"
  obtain lo hi thb where sb: "solveBisection (y_st ?s) stepSize ?S = (lo, hi, thb)"
    by (cases "solveBisection (y_st ?s) stepSize ?S")
  from solveBisection_inv[OF sb] have pos: "0 < thb" by simp
  have ns: "\<not> isSpiraling ?s" by (simp add: initState_def)
  have st: "solveTheta p stepSize ?S ?s = (thb, ?s)"
    using solveTheta_physical[OF ns sb, of p] pos by (simp add: initState_def)
  have "0 < thb * (180 / pi)" using pos by simp
  with assms(3) have big: "roundOver p - EPSILON \<le> thb * (180 / pi)"
    by (simp add: EPSILON_def)
  obtain s' where b: "loopBody p stepSize 0 ?s = Break s'"
  proof (cases "loopBody p stepSize 0 ?s")
    case (Break s')
    then show ?thesis using that by blast
  next
    case (Continue s')
    from loopBody_Continue[OF Continue] st big show ?thesis by auto
  qed
  from loopBody_Break[OF b] have "points s' = [seedPoint p]" by (simp add: initState_def)
  moreover have "stepLoop p stepSize 0 ?s = s'"
    using b by (subst stepLoop.simps) (simp add: MAX_STEPS_def)
  ultimately have "generateProfile p stepSize = [seedPoint p]"
    using assms(1,2) by (simp add: generateProfile_def)
  with first_angle_positive[of "d0 p / 2" stepSize "getTargetArea p (0 + stepSize)"]
  show ?thesis by (simp add: seedPoint_def)
qed

theorem C10_small_rollback_witness:
  "getM (nominal\<lparr>roundOver := 0\<rparr>) \<noteq> 0 \<and> 0 < d0 (nominal\<lparr>roundOver := 0\<rparr>)
   \<and> roundOver (nominal\<lparr>roundOver := 0\<rparr>) \<le> 0.005
   \<and> generateProfile (nominal\<lparr>roundOver := 0\<rparr>) 0.5
       = [\<lparr>index = 0, x = 0, y = 18, length_pt = 0, radius = 18, angle = 0, deltaAngle = 0\<rparr>]"
proof -
  have h: "getM (nominal\<lparr>roundOver := 0\<rparr>) \<noteq> 0" "0 < d0 (nominal\<lparr>roundOver := 0\<rparr>)"
    "roundOver (nominal\<lparr>roundOver := 0\<rparr>) \<le> 0.005"
    by (simp_all add: nominal_def getM_def C_SOUND_def)
  from C10_small_rollback[OF h, of "0.5"] h show ?thesis
    by (simp add: nominal_def)
qed

end
